theory Spec2Isabelle
  imports Main
begin

section \<open>The serializer write path (serializer/serializer.cc)\<close>

text \<open>
  The embedding follows \<^verbatim>\<open>src/serializer/serializer.cc\<close>: the three constructors of
  \<^verbatim>\<open>serializer_write_t\<close>, the completion handle \<^verbatim>\<open>write_cond_t\<close>, \<^verbatim>\<open>perform_write\<close>,
  \<^verbatim>\<open>do_writes\<close> and \<^verbatim>\<open>serializer_block_write\<close>. The code runs on one coroutine and
  talks to three collaborators that are declared elsewhere: the serializer object
  (\<^verbatim>\<open>block_writes\<close>, \<^verbatim>\<open>index_write\<close>, \<^verbatim>\<open>get_block_size\<close>), the callbacks supplied by the
  caller, and the I/O layer that completes physical writes. Every call that crosses this
  boundary is appended to a trace, so that statements about the order of calls are
  statements about a list.
\<close>

subsection \<open>Data\<close>

type_synonym block_id_t = nat
type_synonym file_account_t = nat
type_synonym standard_block_token_t = nat

text \<open>Pointers to objects of the caller are opaque identities.\<close>

type_synonym iocallback_t = nat
type_synonym serializer_write_launched_callback_t = nat

text \<open>
  \<^verbatim>\<open>counted_t<T>\<close> is a reference-counted pointer that may be null; the fields of
  \<^verbatim>\<open>index_write_op_t\<close> are optional values that stay unset until assigned.
\<close>

type_synonym 'a counted_t = "'a option"
type_synonym 'a optional = "'a option"

text \<open>
  Modelled from the spec: \<^verbatim>\<open>repli_timestamp_t\<close> and its constant \<^verbatim>\<open>invalid\<close> are declared
  outside the source files at hand. The spec calls recency a timestamp with
  ``an invalid/sentinel value'' that marks ``no data''.
\<close>

datatype repli_timestamp_t = timestamp nat | invalid

text \<open>
  \<^verbatim>\<open>serializer_write_t\<close> is a block identifier, a tag and a union with one member per tag;
  the tag and the union together are the datatype \<open>action_t\<close>. A buffer pointer is an
  address; a null callback pointer is \<open>None\<close>.
\<close>

datatype action_t =
    UPDATE int repli_timestamp_t "iocallback_t option"
      "serializer_write_launched_callback_t option"
  | DELETE
  | TOUCH repli_timestamp_t

record serializer_write_t =
  block_id :: block_id_t
  action :: action_t

definition make_touch :: "block_id_t \<Rightarrow> repli_timestamp_t \<Rightarrow> serializer_write_t" where
  "make_touch bid rec = \<lparr>block_id = bid, action = TOUCH rec\<rparr>"

definition make_update ::
  "block_id_t \<Rightarrow> repli_timestamp_t \<Rightarrow> int \<Rightarrow> iocallback_t option \<Rightarrow>
   serializer_write_launched_callback_t option \<Rightarrow> serializer_write_t" where
  "make_update bid rec b io_callback launch_callback =
     \<lparr>block_id = bid, action = UPDATE b rec io_callback launch_callback\<rparr>"

definition make_delete :: "block_id_t \<Rightarrow> serializer_write_t" where
  "make_delete bid = \<lparr>block_id = bid, action = DELETE\<rparr>"

text \<open>
  Modelled from the spec: \<^verbatim>\<open>index_write_op_t\<close> and \<^verbatim>\<open>buf_write_info_t\<close> are declared
  outside the source files at hand. An Index Update is
  ``\<open>{ block_id, token (possibly null), recency }\<close>''; a TOUCH carries ``only the updated
  recency'', so a field can be left unset. The constructor \<^verbatim>\<open>index_write_op_t(block_id)\<close>
  used by \<^verbatim>\<open>do_writes\<close> leaves both other fields unset.
\<close>

record index_write_op_t =
  op_block_id :: block_id_t
  token :: "standard_block_token_t counted_t optional"
  recency :: "repli_timestamp_t optional"

definition index_write_op :: "block_id_t \<Rightarrow> index_write_op_t" where
  "index_write_op bid = \<lparr>op_block_id = bid, token = None, recency = None\<rparr>"

record buf_write_info_t =
  buf :: int
  block_size :: nat
  info_block_id :: block_id_t

definition buf_write_info :: "int \<Rightarrow> nat \<Rightarrow> block_id_t \<Rightarrow> buf_write_info_t" where
  "buf_write_info b sz bid = \<lparr>buf = b, block_size = sz, info_block_id = bid\<rparr>"

text \<open>
  The two classes of the file that derive from both \<^verbatim>\<open>cond_t\<close> and \<^verbatim>\<open>iocallback_t\<close>:
  \<^verbatim>\<open>write_cond_t\<close>, which wraps a callback of the caller, and the unnamed struct of
  \<^verbatim>\<open>serializer_block_write\<close>. The boolean is the latch of \<^verbatim>\<open>cond_t\<close>.
\<close>

datatype cond_obj =
    write_cond_t (callback: "iocallback_t option") (pulsed: bool)
  | block_write_cb (pulsed: bool)

text \<open>What crosses the boundary of the file, in the order it happens.\<close>

datatype event =
    EvBlockWrites "buf_write_info_t list" file_account_t nat
      "standard_block_token_t counted_t list"
  | EvWriteLaunched serializer_write_launched_callback_t "standard_block_token_t counted_t"
  | EvIoComplete iocallback_t
  | EvPulse nat
  | EvWait nat
  | EvDelete nat
  | EvIndexWrite "index_write_op_t list" file_account_t

datatype error = GuaranteeFailed | BlockedForever

text \<open>
  The serializer behind the pointer \<^verbatim>\<open>ser\<close>. Its class is not among the source files, so
  its virtual methods are parameters of the embedding: \<open>block_writes_impl\<close> returns the
  tokens it issues for a list of writes (any number of them: the code checks),
  \<open>index_write_impl\<close> applies a list of Index Updates, and both may change the state
  \<open>'s\<close> of the serializer. \<open>get_block_size_ser_value\<close> stands for
  \<^verbatim>\<open>ser->get_block_size().ser_value()\<close>, and \<open>sizeof_ser_buffer_t\<close> for the size of the
  header \<^verbatim>\<open>ser_buffer_t\<close> that precedes a cache buffer in memory.
\<close>

record 's serializer_t =
  get_block_size_ser_value :: nat
  sizeof_ser_buffer_t :: int
  block_writes_impl ::
    "buf_write_info_t list \<Rightarrow> file_account_t \<Rightarrow> 's \<Rightarrow> standard_block_token_t counted_t list \<times> 's"
  index_write_impl :: "index_write_op_t list \<Rightarrow> file_account_t \<Rightarrow> 's \<Rightarrow> 's"

text \<open>
  Modelled from the spec: the I/O layer is not among the source files. Physical writes
  ``proceed concurrently'' and the layer invokes the completion sink of each
  ``exactly once, asynchronously''; the coroutine that runs \<^verbatim>\<open>do_writes\<close> is scheduled
  cooperatively, so a completion is delivered only while it is suspended. While the
  coroutine is inside \<^verbatim>\<open>block_writes\<close>, or has been woken by a pulse and not yet resumed,
  the layer may complete any number of the writes in flight (\<open>early\<close>: which one next, or
  none); while the coroutine is suspended in \<^verbatim>\<open>wait\<close> on a latch that is not set it
  completes them one after another (\<open>pick\<close>). Both look at everything that has happened so far, so every
  order of completion is the behaviour of some \<open>io_layer_t\<close>.
\<close>

record io_layer_t =
  early :: "event list \<Rightarrow> nat option"
  pick :: "event list \<Rightarrow> nat"

text \<open>
  The state: the serializer's own state, the store of completion handles (a handle's
  address is its index), the handles whose physical write is in flight, and the trace.
\<close>

record 's world =
  ser_state :: 's
  heap :: "cond_obj list"
  inflight :: "nat list"
  trace :: "event list"

definition init_world :: "'s \<Rightarrow> 's world" where
  "init_world s = \<lparr>ser_state = s, heap = [], inflight = [], trace = []\<rparr>"

subsection \<open>Completion handles\<close>

text \<open>
  Modelled from the spec: \<^verbatim>\<open>cond_t\<close> is declared outside the source files at hand. It
  is the ``internal latch'' of a Completion Handle: \<^verbatim>\<open>pulse\<close> sets it, \<^verbatim>\<open>wait\<close> returns
  once it is set.
\<close>

definition log_event :: "event \<Rightarrow> 's world \<Rightarrow> 's world" where
  "log_event e w = w\<lparr>trace := trace w @ [e]\<rparr>"

definition is_pulsed :: "'s world \<Rightarrow> nat \<Rightarrow> bool" where
  "is_pulsed w c = (c < length (heap w) \<and> pulsed (heap w ! c))"

fun set_pulsed :: "cond_obj \<Rightarrow> cond_obj" where
  "set_pulsed (write_cond_t cb p) = write_cond_t cb True"
| "set_pulsed (block_write_cb p) = block_write_cb True"

text \<open>\<^verbatim>\<open>cond_t::pulse\<close> on the handle at address \<open>c\<close>.\<close>

definition pulse :: "nat \<Rightarrow> 's world \<Rightarrow> 's world" where
  "pulse c w =
     log_event (EvPulse c)
       (if c < length (heap w) then w\<lparr>heap := (heap w)[c := set_pulsed (heap w ! c)]\<rparr> else w)"

text \<open>
  The virtual call \<^verbatim>\<open>on_io_complete()\<close> on the handle at address \<open>c\<close>:
  \<^verbatim>\<open>write_cond_t\<close> calls the wrapped callback when it is not null and then pulses, the
  unnamed struct of \<^verbatim>\<open>serializer_block_write\<close> only pulses.
\<close>

fun on_io_complete :: "cond_obj \<Rightarrow> nat \<Rightarrow> 's world \<Rightarrow> 's world" where
  "on_io_complete (write_cond_t cb p) c w =
     pulse c (case cb of Some f \<Rightarrow> log_event (EvIoComplete f) w | None \<Rightarrow> w)"
| "on_io_complete (block_write_cb p) c w = pulse c w"

text \<open>
  Modelled from the spec: the physical layer is not among the source files; it is
  ``assumed to return one token per submitted write and to invoke the completion sink
  exactly once, asynchronously, on durability''. \<open>complete_write k\<close> is the completion of
  the \<open>k\<close>-th write in flight: it leaves the list and its sink is called. A sink that is
  not in the store is not called; no world that the write path builds has one.
\<close>

definition complete_write :: "nat \<Rightarrow> 's world \<Rightarrow> 's world" where
  "complete_write k w =
     (let c = inflight w ! k;
          w1 = w\<lparr>inflight := take k (inflight w) @ drop (Suc k) (inflight w)\<rparr>
      in if c < length (heap w) then on_io_complete (heap w ! c) c w1 else w1)"

lemma inflight_log_event [simp]: "inflight (log_event e w) = inflight w"
  by (simp add: log_event_def)

lemma inflight_pulse [simp]: "inflight (pulse c w) = inflight w"
  by (simp add: pulse_def)

lemma inflight_on_io_complete [simp]: "inflight (on_io_complete obj c w) = inflight w"
  by (cases obj) (simp_all split: option.splits)

lemma inflight_complete_write:
  "inflight (complete_write k w) = take k (inflight w) @ drop (Suc k) (inflight w)"
  by (simp add: complete_write_def Let_def)

lemma length_inflight_complete_write:
  "k < length (inflight w) \<Longrightarrow>
   length (inflight (complete_write k w)) = length (inflight w) - 1"
  by (simp add: inflight_complete_write)

function early_completions :: "io_layer_t \<Rightarrow> 's world \<Rightarrow> 's world" where
  "early_completions io w =
     (if inflight w = [] then w
      else case early io (trace w) of
             None \<Rightarrow> w
           | Some k \<Rightarrow> early_completions io (complete_write (k mod length (inflight w)) w))"
  by pat_completeness auto
termination
  by (relation "measure (\<lambda>(io, w). length (inflight w))")
     (auto simp: length_inflight_complete_write)

text \<open>
  \<^verbatim>\<open>cond_t::wait\<close>: returns at once when the latch is set, and otherwise suspends the
  coroutine until it is; meanwhile the I/O layer completes writes. With the latch unset and
  nothing in flight the coroutine never wakes up.
\<close>

function wait_pulsed :: "io_layer_t \<Rightarrow> nat \<Rightarrow> 's world \<Rightarrow> error + 's world" where
  "wait_pulsed io c w =
     (if is_pulsed w c then Inr w
      else if inflight w = [] then Inl BlockedForever
      else wait_pulsed io c (complete_write (pick io (trace w) mod length (inflight w)) w))"
  by pat_completeness auto
termination
  by (relation "measure (\<lambda>(io, c, w). length (inflight w))")
     (auto simp: length_inflight_complete_write)

declare early_completions.simps [simp del] wait_pulsed.simps [simp del]

text \<open>
  The pulse only schedules the waiting coroutine; until it runs again, further writes can
  complete.
\<close>

definition wait :: "io_layer_t \<Rightarrow> nat \<Rightarrow> 's world \<Rightarrow> error + 's world" where
  "wait io c w =
     (case wait_pulsed io c (log_event (EvWait c) w) of
        Inl e \<Rightarrow> Inl e
      | Inr w1 \<Rightarrow> Inr (early_completions io w1))"

subsection \<open>Calls into the serializer\<close>

text \<open>
  \<^verbatim>\<open>ser->block_writes(write_infos, acct, cb)\<close>: the serializer issues its tokens, the
  writes are in flight with \<open>cb\<close> as their sink (one completion for the call), and the
  call is a point where completions can be delivered.
  \<^verbatim>\<open>ser->index_write(ops, acct)\<close> hands the Index Updates to the serializer.
\<close>

definition block_writes ::
  "'s serializer_t \<Rightarrow> io_layer_t \<Rightarrow> buf_write_info_t list \<Rightarrow> file_account_t \<Rightarrow> nat \<Rightarrow>
   's world \<Rightarrow> standard_block_token_t counted_t list \<times> 's world" where
  "block_writes ser io write_infos acct cb w =
     (let (tokens, s) = block_writes_impl ser write_infos acct (ser_state w)
      in (tokens,
          early_completions io
            (log_event (EvBlockWrites write_infos acct cb tokens)
               (w\<lparr>ser_state := s, inflight := inflight w @ [cb]\<rparr>))))"

definition index_write ::
  "'s serializer_t \<Rightarrow> index_write_op_t list \<Rightarrow> file_account_t \<Rightarrow> 's world \<Rightarrow> 's world" where
  "index_write ser ops acct w =
     log_event (EvIndexWrite ops acct)
       (w\<lparr>ser_state := index_write_impl ser ops acct (ser_state w)\<rparr>)"

subsection \<open>The write path\<close>

definition convert_buffer_cache_buf_to_ser_buffer :: "'s serializer_t \<Rightarrow> int \<Rightarrow> int" where
  "convert_buffer_cache_buf_to_ser_buffer ser b = b - sizeof_ser_buffer_t ser"

text \<open>
  \<^verbatim>\<open>perform_write\<close> changes the vector \<open>conds\<close> and the Index Update \<open>op\<close> through
  pointers; here it returns both. \<^verbatim>\<open>guarantee\<close> aborts the process when its condition is
  false. The \<^verbatim>\<open>default\<close> branch of the \<^verbatim>\<open>switch\<close> has no counterpart: \<open>action_t\<close> has
  the three tags only.
\<close>

definition perform_write ::
  "'s serializer_t \<Rightarrow> io_layer_t \<Rightarrow> serializer_write_t \<Rightarrow> file_account_t \<Rightarrow> nat list \<Rightarrow>
   index_write_op_t \<Rightarrow> 's world \<Rightarrow> error + (nat list \<times> index_write_op_t \<times> 's world)" where
  "perform_write ser io write acct conds op w =
     (case action write of
        UPDATE b rec io_callback launch_callback \<Rightarrow>
          (let w1 = w\<lparr>heap := heap w @ [write_cond_t io_callback False]\<rparr>;
               conds1 = conds @ [length (heap w)];
               write_infos =
                 [buf_write_info (convert_buffer_cache_buf_to_ser_buffer ser b)
                    (get_block_size_ser_value ser) (op_block_id op)];
               (tokens, w2) = block_writes ser io write_infos acct (last conds1) w1
           in case tokens of
                [t] \<Rightarrow>
                  (let op1 = op\<lparr>token := Some t\<rparr>;
                       w3 = (case launch_callback of
                               Some cb \<Rightarrow> log_event (EvWriteLaunched cb t) w2
                             | None \<Rightarrow> w2)
                   in Inr (conds1, op1\<lparr>recency := Some rec\<rparr>, w3))
              | _ \<Rightarrow> Inl GuaranteeFailed)
      | DELETE \<Rightarrow> Inr (conds, op\<lparr>token := Some None, recency := Some invalid\<rparr>, w)
      | TOUCH rec \<Rightarrow> Inr (conds, op\<lparr>recency := Some rec\<rparr>, w))"

text \<open>Step 1 of \<^verbatim>\<open>do_writes\<close>: write buffers to disk and assemble index operations.\<close>

fun write_buffers ::
  "'s serializer_t \<Rightarrow> io_layer_t \<Rightarrow> serializer_write_t list \<Rightarrow> file_account_t \<Rightarrow> nat list \<Rightarrow>
   index_write_op_t list \<Rightarrow> 's world \<Rightarrow>
   error + (nat list \<times> index_write_op_t list \<times> 's world)" where
  "write_buffers ser io [] acct conds ops w = Inr (conds, ops, w)"
| "write_buffers ser io (write # writes) acct conds ops w =
     (case perform_write ser io write acct conds (index_write_op (block_id write)) w of
        Inl e \<Rightarrow> Inl e
      | Inr (conds1, op, w1) \<Rightarrow> write_buffers ser io writes acct conds1 (ops @ [op]) w1)"

text \<open>Step 2 of \<^verbatim>\<open>do_writes\<close>: wait on all writes to finish, deleting each handle.\<close>

fun wait_on_all :: "io_layer_t \<Rightarrow> nat list \<Rightarrow> 's world \<Rightarrow> error + 's world" where
  "wait_on_all io [] w = Inr w"
| "wait_on_all io (c # cs) w =
     (case wait io c w of
        Inl e \<Rightarrow> Inl e
      | Inr w1 \<Rightarrow> wait_on_all io cs (log_event (EvDelete c) w1))"

text \<open>
  \<^verbatim>\<open>do_writes\<close>; step 3 commits the transaction to the serializer. The thread assertion,
  the two \<^verbatim>\<open>reserve\<close> calls and the \<^verbatim>\<open>clear\<close> of the local vector have no effect on what
  is modelled.
\<close>

definition do_writes ::
  "'s serializer_t \<Rightarrow> io_layer_t \<Rightarrow> serializer_write_t list \<Rightarrow> file_account_t \<Rightarrow> 's world \<Rightarrow>
   error + 's world" where
  "do_writes ser io writes io_account w =
     (case write_buffers ser io writes io_account [] [] w of
        Inl e \<Rightarrow> Inl e
      | Inr (block_write_conds, index_write_ops, w1) \<Rightarrow>
          (case wait_on_all io block_write_conds w1 of
             Inl e \<Rightarrow> Inl e
           | Inr w2 \<Rightarrow> Inr (index_write ser index_write_ops io_account w2)))"

text \<open>\<^verbatim>\<open>serializer_block_write\<close>; the handle \<^verbatim>\<open>cb\<close> lives in the store like the others.\<close>

definition serializer_block_write ::
  "'s serializer_t \<Rightarrow> io_layer_t \<Rightarrow> int \<Rightarrow> block_id_t \<Rightarrow> file_account_t \<Rightarrow> 's world \<Rightarrow>
   error + (standard_block_token_t counted_t \<times> 's world)" where
  "serializer_block_write ser io b bid io_account w =
     (let cb = length (heap w);
          w1 = w\<lparr>heap := heap w @ [block_write_cb False]\<rparr>;
          ser_buf = convert_buffer_cache_buf_to_ser_buffer ser b;
          (tokens, w2) =
            block_writes ser io
              [buf_write_info ser_buf (get_block_size_ser_value ser) bid] io_account cb w1
      in case tokens of
           [t] \<Rightarrow> (case wait io cb w2 of Inl e \<Rightarrow> Inl e | Inr w3 \<Rightarrow> Inr (t, w3))
         | _ \<Rightarrow> Inl GuaranteeFailed)"

section \<open>Vocabulary of the properties\<close>

subsection \<open>Reading a trace\<close>

text \<open>
  The I/O layer's part of a trace (completions: a callback of the caller, a pulse) and the
  coroutine's part (the calls it makes), and what a completion of a handle appends.
\<close>

fun is_io_event :: "event \<Rightarrow> bool" where
  "is_io_event (EvIoComplete f) = True"
| "is_io_event (EvPulse c) = True"
| "is_io_event _ = False"

definition calls :: "event list \<Rightarrow> event list" where
  "calls tr = filter (\<lambda>e. \<not> is_io_event e) tr"

fun pulse_of :: "event \<Rightarrow> nat option" where
  "pulse_of (EvPulse c) = Some c"
| "pulse_of _ = None"

definition pulses_of :: "event list \<Rightarrow> nat list" where
  "pulses_of tr = List.map_filter pulse_of tr"

fun completion_events :: "cond_obj \<Rightarrow> nat \<Rightarrow> event list" where
  "completion_events (write_cond_t (Some f) p) c = [EvIoComplete f, EvPulse c]"
| "completion_events (write_cond_t None p) c = [EvPulse c]"
| "completion_events (block_write_cb p) c = [EvPulse c]"

fun is_update :: "serializer_write_t \<Rightarrow> bool" where
  "is_update wr = (case action wr of UPDATE b rec iocb lcb \<Rightarrow> True | _ \<Rightarrow> False)"

subsection \<open>Well-formed worlds\<close>

text \<open>
  A world is well formed when the writes in flight are those of the handles not yet
  pulsed, each once; every pulsed handle was pulsed once; and the completions in the trace
  are, pulse by pulse, what \<open>on_io_complete\<close> of that handle appends.
\<close>

definition wf_world :: "'s world \<Rightarrow> bool" where
  "wf_world w \<longleftrightarrow>
     distinct (inflight w) \<and>
     set (inflight w) = {c. c < length (heap w) \<and> \<not> pulsed (heap w ! c)} \<and>
     distinct (pulses_of (trace w)) \<and>
     set (pulses_of (trace w)) = {c. c < length (heap w) \<and> pulsed (heap w ! c)} \<and>
     filter is_io_event (trace w) =
       concat (map (\<lambda>c. completion_events (heap w ! c) c) (pulses_of (trace w)))"

text \<open>\<open>completes w w'\<close>: the I/O layer completes some of the writes in flight.\<close>

inductive completes :: "'s world \<Rightarrow> 's world \<Rightarrow> bool" where
  completes_refl: "completes w w"
| completes_step:
    "k < length (inflight w) \<Longrightarrow> completes (complete_write k w) w' \<Longrightarrow> completes w w'"

subsection \<open>The phases of a batch\<close>

text \<open>
  The tokens the serializer issues for the write of an UPDATE of buffer \<open>b\<close> and block
  \<open>bid\<close>, and the world in which that write is in flight with a fresh handle \<open>obj\<close> as
  its sink, before any completion.
\<close>

definition issued ::
  "'s serializer_t \<Rightarrow> file_account_t \<Rightarrow> int \<Rightarrow> block_id_t \<Rightarrow> 's world \<Rightarrow>
   standard_block_token_t counted_t list" where
  "issued ser acct b bid w =
     fst (block_writes_impl ser
            [buf_write_info (convert_buffer_cache_buf_to_ser_buffer ser b)
               (get_block_size_ser_value ser) bid] acct (ser_state w))"

definition submitted ::
  "'s serializer_t \<Rightarrow> file_account_t \<Rightarrow> int \<Rightarrow> block_id_t \<Rightarrow> cond_obj \<Rightarrow> 's world \<Rightarrow> 's world" where
  "submitted ser acct b bid obj w =
     (let infos = [buf_write_info (convert_buffer_cache_buf_to_ser_buffer ser b)
                     (get_block_size_ser_value ser) bid];
          (tokens, s) = block_writes_impl ser infos acct (ser_state w)
      in log_event (EvBlockWrites infos acct (length (heap w)) tokens)
           (w\<lparr>heap := heap w @ [obj], ser_state := s,
              inflight := inflight w @ [length (heap w)]\<rparr>))"

text \<open>
  \<open>op_for wr op\<close>: \<open>op\<close> is an Index Update that descriptor \<open>wr\<close> can produce.
  \<open>dispatch_calls ser acct n writes ops\<close>: the calls that dispatching \<open>writes\<close> makes,
  when the resulting Index Updates are \<open>ops\<close> and the next free handle address is \<open>n\<close>:
  for each UPDATE one \<open>block_writes\<close> of one block that returns the token of its Index
  Update, followed by the launch callback when there is one.
\<close>

fun op_for :: "serializer_write_t \<Rightarrow> index_write_op_t \<Rightarrow> bool" where
  "op_for wr op =
     (op_block_id op = block_id wr \<and>
      (case action wr of
         UPDATE b rec iocb lcb \<Rightarrow> token op \<noteq> None \<and> recency op = Some rec
       | DELETE \<Rightarrow> token op = Some None \<and> recency op = Some invalid
       | TOUCH rec \<Rightarrow> token op = None \<and> recency op = Some rec))"

fun update_calls ::
  "'s serializer_t \<Rightarrow> file_account_t \<Rightarrow> nat \<Rightarrow> serializer_write_t \<Rightarrow> index_write_op_t \<Rightarrow>
   event list" where
  "update_calls ser acct n wr op =
     (case (action wr, token op) of
        (UPDATE b rec iocb lcb, Some t) \<Rightarrow>
          EvBlockWrites
            [buf_write_info (convert_buffer_cache_buf_to_ser_buffer ser b)
               (get_block_size_ser_value ser) (block_id wr)] acct n [t] #
          (case lcb of Some cb \<Rightarrow> [EvWriteLaunched cb t] | None \<Rightarrow> [])
      | _ \<Rightarrow> [])"

fun dispatch_calls ::
  "'s serializer_t \<Rightarrow> file_account_t \<Rightarrow> nat \<Rightarrow> serializer_write_t list \<Rightarrow>
   index_write_op_t list \<Rightarrow> event list" where
  "dispatch_calls ser acct n (wr # wrs) (op # ops) =
     update_calls ser acct n wr op @
     dispatch_calls ser acct (if is_update wr then Suc n else n) wrs ops"
| "dispatch_calls ser acct n wrs ops = []"

text \<open>The assumption on the physical layer: one token for each submitted write.\<close>

definition one_token_per_write :: "'s serializer_t \<Rightarrow> bool" where
  "one_token_per_write ser \<longleftrightarrow>
     (\<forall>infos acct s. length (fst (block_writes_impl ser infos acct s)) = length infos)"

text \<open>
  The commits of a trace (the lists passed to \<open>index_write\<close>), the launch callbacks
  invoked in it with the token each received, and the launch callback of a descriptor.
\<close>

fun commit_of :: "event \<Rightarrow> (index_write_op_t list \<times> file_account_t) option" where
  "commit_of (EvIndexWrite ops acct) = Some (ops, acct)"
| "commit_of _ = None"

definition commits :: "event list \<Rightarrow> (index_write_op_t list \<times> file_account_t) list" where
  "commits tr = List.map_filter commit_of tr"

fun launched_of ::
  "event \<Rightarrow> (serializer_write_launched_callback_t \<times> standard_block_token_t counted_t) option" where
  "launched_of (EvWriteLaunched cb t) = Some (cb, t)"
| "launched_of _ = None"

definition launches ::
  "event list \<Rightarrow> (serializer_write_launched_callback_t \<times> standard_block_token_t counted_t) list" where
  "launches tr = List.map_filter launched_of tr"



text \<open>
  The physical writes submitted in a trace, each with the tokens returned for it, and the
  write an UPDATE descriptor submits when its Index Update is \<open>op\<close>: one block, one token,
  the token of \<open>op\<close>.
\<close>

fun submit_of ::
  "event \<Rightarrow> (buf_write_info_t list \<times> standard_block_token_t counted_t list) option" where
  "submit_of (EvBlockWrites infos acct c toks) = Some (infos, toks)"
| "submit_of _ = None"

definition submits ::
  "event list \<Rightarrow> (buf_write_info_t list \<times> standard_block_token_t counted_t list) list" where
  "submits tr = List.map_filter submit_of tr"

fun submit_for ::
  "'s serializer_t \<Rightarrow> serializer_write_t \<times> index_write_op_t \<Rightarrow>
   (buf_write_info_t list \<times> standard_block_token_t counted_t list) option" where
  "submit_for ser (wr, op) =
     (case (action wr, token op) of
        (UPDATE b rec iocb lcb, Some t) \<Rightarrow>
          Some ([buf_write_info (convert_buffer_cache_buf_to_ser_buffer ser b)
                   (get_block_size_ser_value ser) (block_id wr)], [t])
      | _ \<Rightarrow> None)"

text \<open>
  The callback a handle wraps (none for the handle of \<open>serializer_block_write\<close>), the
  completion callback of a descriptor, and what the completion of a handle that wraps
  \<open>cb\<close> appends to the trace.
\<close>

fun wrapped_callback :: "cond_obj \<Rightarrow> iocallback_t option" where
  "wrapped_callback (write_cond_t cb p) = cb"
| "wrapped_callback (block_write_cb p) = None"

fun io_callback_of :: "serializer_write_t \<Rightarrow> iocallback_t option" where
  "io_callback_of wr = (case action wr of UPDATE b rec iocb lcb \<Rightarrow> iocb | _ \<Rightarrow> None)"

definition completion_of :: "iocallback_t option \<Rightarrow> nat \<Rightarrow> event list" where
  "completion_of cb c = (case cb of Some f \<Rightarrow> [EvIoComplete f] | None \<Rightarrow> []) @ [EvPulse c]"

text \<open>
  The handle of \<open>serializer_block_write\<close> behaves as a \<open>write_cond_t\<close> with a null
  callback. \<open>as_write_conds w\<close> is \<open>w\<close> with every handle of the first class replaced
  by one of the second with the same latch.
\<close>

fun as_write_cond :: "cond_obj \<Rightarrow> cond_obj" where
  "as_write_cond (write_cond_t cb p) = write_cond_t cb p"
| "as_write_cond (block_write_cb p) = write_cond_t None p"

definition as_write_conds :: "'s world \<Rightarrow> 's world" where
  "as_write_conds w = w\<lparr>heap := map as_write_cond (heap w)\<rparr>"

subsection \<open>A worked batch\<close>

text \<open>
  A serializer for the examples: its tokens are consecutive numbers and its index is the
  list of the Index Updates committed so far. The I/O layer of the examples completes
  nothing early and, when waited for, completes the second write in flight first. The
  batch holds two UPDATEs of block 1, a DELETE and a TOUCH; \<open>example_world\<close> is the
  world \<open>do_writes\<close> returns for it, and \<open>block_write_world\<close> the one
  \<open>serializer_block_write\<close> returns for the first buffer.
\<close>

definition counting_serializer :: "(nat \<times> index_write_op_t list) serializer_t" where
  "counting_serializer =
     \<lparr>get_block_size_ser_value = 4096, sizeof_ser_buffer_t = 16,
      block_writes_impl =
        (\<lambda>infos acct (n, idx). (map Some [n..<n + length infos], (n + length infos, idx))),
      index_write_impl = (\<lambda>ops acct (n, idx). (n, idx @ ops))\<rparr>"

definition io_second_first :: io_layer_t where
  "io_second_first = \<lparr>early = (\<lambda>tr. None), pick = (\<lambda>tr. 1)\<rparr>"

definition example_batch :: "serializer_write_t list" where
  "example_batch =
     [make_update 1 (timestamp 5) 100 (Some 7) (Some 8), make_delete 2,
      make_touch 3 (timestamp 9), make_update 1 (timestamp 6) 200 None (Some 9)]"

definition example_ops :: "index_write_op_t list" where
  "example_ops =
     [\<lparr>op_block_id = 1, token = Some (Some 0), recency = Some (timestamp 5)\<rparr>,
      \<lparr>op_block_id = 2, token = Some None, recency = Some invalid\<rparr>,
      \<lparr>op_block_id = 3, token = None, recency = Some (timestamp 9)\<rparr>,
      \<lparr>op_block_id = 1, token = Some (Some 1), recency = Some (timestamp 6)\<rparr>]"

definition example_world :: "(nat \<times> index_write_op_t list) world" where
  "example_world =
     \<lparr>ser_state = (2, example_ops),
      heap = [write_cond_t (Some 7) True, write_cond_t None True],
      inflight = [],
      trace =
        [EvBlockWrites [\<lparr>buf = 84, block_size = 4096, info_block_id = 1\<rparr>] 0 0 [Some 0],
         EvWriteLaunched 8 (Some 0),
         EvBlockWrites [\<lparr>buf = 184, block_size = 4096, info_block_id = 1\<rparr>] 0 1 [Some 1],
         EvWriteLaunched 9 (Some 1),
         EvWait 0, EvPulse 1, EvIoComplete 7, EvPulse 0, EvDelete 0,
         EvWait 1, EvDelete 1,
         EvIndexWrite example_ops 0]\<rparr>"

definition block_write_world :: "(nat \<times> index_write_op_t list) world" where
  "block_write_world =
     \<lparr>ser_state = (1, []), heap = [block_write_cb True], inflight = [],
      trace = [EvBlockWrites [\<lparr>buf = 84, block_size = 4096, info_block_id = 1\<rparr>] 0 0 [Some 0],
               EvWait 0, EvPulse 0]\<rparr>"

subsection \<open>A batch in any world\<close>

text \<open>
  What a call appends to the trace of the world it starts in; the handles given to
  \<open>block_writes\<close> as completion sinks; and the Index Updates of a batch as the serializer
  determines them: descriptor by descriptor, the token of an UPDATE is the one token that
  \<open>block_writes_impl\<close> returns for its write, in the state the serializer has after the
  writes of the descriptors before it.
\<close>

definition new_events :: "'s world \<Rightarrow> 's world \<Rightarrow> event list" where
  "new_events w w' = drop (length (trace w)) (trace w')"

fun sink_of :: "event \<Rightarrow> nat option" where
  "sink_of (EvBlockWrites infos acct c toks) = Some c"
| "sink_of _ = None"

definition sinks :: "event list \<Rightarrow> nat list" where
  "sinks tr = List.map_filter sink_of tr"

fun issued_ops ::
  "'s serializer_t \<Rightarrow> file_account_t \<Rightarrow> serializer_write_t list \<Rightarrow> 's \<Rightarrow>
   (index_write_op_t list \<times> 's) option" where
  "issued_ops ser acct [] s = Some ([], s)"
| "issued_ops ser acct (wr # wrs) s =
     (case action wr of
        UPDATE b rec iocb lcb \<Rightarrow>
          (case block_writes_impl ser
                  [buf_write_info (convert_buffer_cache_buf_to_ser_buffer ser b)
                     (get_block_size_ser_value ser) (block_id wr)] acct s of
             ([t], s1) \<Rightarrow>
               map_option
                 (\<lambda>(ops, s2).
                    (\<lparr>op_block_id = block_id wr, token = Some t, recency = Some rec\<rparr> # ops, s2))
                 (issued_ops ser acct wrs s1)
           | _ \<Rightarrow> None)
      | DELETE \<Rightarrow>
          map_option
            (\<lambda>(ops, s2).
               (\<lparr>op_block_id = block_id wr, token = Some None, recency = Some invalid\<rparr> # ops,
                s2))
            (issued_ops ser acct wrs s)
      | TOUCH rec \<Rightarrow>
          map_option
            (\<lambda>(ops, s2).
               (\<lparr>op_block_id = block_id wr, token = None, recency = Some rec\<rparr> # ops, s2))
            (issued_ops ser acct wrs s))"

text \<open>
  A second batch, run in the world the worked batch ends in: what it appends to the trace
  and the world \<open>do_writes\<close> returns for it.
\<close>

definition second_batch :: "serializer_write_t list" where
  "second_batch =
     [make_touch 1 (timestamp 11), make_update 4 (timestamp 12) 300 (Some 6) (Some 5),
      make_delete 3]"

definition second_ops :: "index_write_op_t list" where
  "second_ops =
     [\<lparr>op_block_id = 1, token = None, recency = Some (timestamp 11)\<rparr>,
      \<lparr>op_block_id = 4, token = Some (Some 2), recency = Some (timestamp 12)\<rparr>,
      \<lparr>op_block_id = 3, token = Some None, recency = Some invalid\<rparr>]"

definition second_events :: "event list" where
  "second_events =
     [EvBlockWrites [\<lparr>buf = 284, block_size = 4096, info_block_id = 4\<rparr>] 0 2 [Some 2],
      EvWriteLaunched 5 (Some 2),
      EvWait 2, EvIoComplete 6, EvPulse 2, EvDelete 2,
      EvIndexWrite second_ops 0]"

definition second_world :: "(nat \<times> index_write_op_t list) world" where
  "second_world =
     \<lparr>ser_state = (3, example_ops @ second_ops),
      heap = heap example_world @ [write_cond_t (Some 6) True],
      inflight = [],
      trace = trace example_world @ second_events\<rparr>"

section \<open>Lemmas\<close>

subsection \<open>Fields after each operation\<close>

lemma log_event_fields [simp]:
  "trace (log_event e w) = trace w @ [e]"
  "heap (log_event e w) = heap w"
  "ser_state (log_event e w) = ser_state w"
  by (simp_all add: log_event_def)

lemma pulse_fields [simp]:
  "trace (pulse c w) = trace w @ [EvPulse c]"
  "ser_state (pulse c w) = ser_state w"
  "heap (pulse c w) = (heap w)[c := set_pulsed (heap w ! c)]"
  by (auto simp: pulse_def not_less list_update_beyond)

lemma on_io_complete_fields [simp]:
  "trace (on_io_complete obj c w) = trace w @ completion_events obj c"
  "ser_state (on_io_complete obj c w) = ser_state w"
  "heap (on_io_complete obj c w) = (heap w)[c := set_pulsed (heap w ! c)]"
  by (cases obj; cases "callback obj"; simp)+

lemma complete_write_fields [simp]:
  "ser_state (complete_write k w) = ser_state w"
  "heap (complete_write k w) = (heap w)[inflight w ! k := set_pulsed (heap w ! (inflight w ! k))]"
  "trace (complete_write k w) =
     trace w @ (if inflight w ! k < length (heap w)
                then completion_events (heap w ! (inflight w ! k)) (inflight w ! k) else [])"
  by (simp_all add: complete_write_def Let_def list_update_beyond)

lemma map_filter_append:
  "List.map_filter f (xs @ ys) = List.map_filter f xs @ List.map_filter f ys"
  by (simp add: List.map_filter_def)

lemma pulses_of_simps [simp]:
  "pulses_of [] = []"
  "pulses_of (xs @ ys) = pulses_of xs @ pulses_of ys"
  "pulses_of (e # xs) = (case pulse_of e of None \<Rightarrow> pulses_of xs | Some c \<Rightarrow> c # pulses_of xs)"
  by (simp_all add: pulses_of_def map_filter_append List.map_filter_simps split: option.splits)

lemma calls_simps [simp]:
  "calls [] = []"
  "calls (xs @ ys) = calls xs @ calls ys"
  "calls (e # xs) = (if is_io_event e then calls xs else e # calls xs)"
  by (simp_all add: calls_def)

lemma pulsed_set_pulsed [simp]: "pulsed (set_pulsed obj)"
  by (cases obj) simp_all

lemma completion_events_set_pulsed [simp]:
  "completion_events (set_pulsed obj) c = completion_events obj c"
  by (cases obj; cases "callback obj"; simp)

lemma io_completion_events [simp]:
  "filter is_io_event (completion_events obj c) = completion_events obj c"
  by (cases obj; cases "callback obj"; simp)

lemma calls_completion_events [simp]: "calls (completion_events obj c) = []"
  by (cases obj; cases "callback obj"; simp)

lemma pulses_of_completion_events [simp]: "pulses_of (completion_events obj c) = [c]"
  by (cases obj; cases "callback obj"; simp)

lemma pulses_of_call: "\<not> is_io_event e \<Longrightarrow> pulse_of e = None"
  by (cases e) simp_all

subsection \<open>Well-formedness is kept\<close>

lemma wf_init_world: "wf_world (init_world s)"
  by (simp add: wf_world_def init_world_def)

lemma remove_nth_distinct:
  assumes "distinct xs" "k < length xs"
  shows "distinct (take k xs @ drop (Suc k) xs)"
    and "set (take k xs @ drop (Suc k) xs) = set xs - {xs ! k}"
proof -
  have xs: "xs = take k xs @ xs ! k # drop (Suc k) xs"
    using assms(2) by (rule id_take_nth_drop)
  with assms(1) have d: "distinct (take k xs @ xs ! k # drop (Suc k) xs)" by simp
  then show "distinct (take k xs @ drop (Suc k) xs)" by simp
  have "set xs = set (take k xs @ xs ! k # drop (Suc k) xs)" using xs by simp
  with d show "set (take k xs @ drop (Suc k) xs) = set xs - {xs ! k}" by auto
qed

lemma concat_map_cong_set:
  "(\<And>x. x \<in> set xs \<Longrightarrow> f x = g x) \<Longrightarrow> concat (map f xs) = concat (map g xs)"
  by (induction xs) simp_all

lemma wf_pulses_bound:
  "wf_world w \<Longrightarrow> c \<in> set (pulses_of (trace w)) \<Longrightarrow> c < length (heap w)"
  by (simp add: wf_world_def)

lemma wf_complete_write:
  assumes "wf_world w" "k < length (inflight w)"
  shows "wf_world (complete_write k w)"
proof -
  let ?c = "inflight w ! k"
  let ?h = "(heap w)[?c := set_pulsed (heap w ! ?c)]"
  have d: "distinct (inflight w)"
    and s: "set (inflight w) = {c. c < length (heap w) \<and> \<not> pulsed (heap w ! c)}"
    and dp: "distinct (pulses_of (trace w))"
    and sp: "set (pulses_of (trace w)) = {c. c < length (heap w) \<and> pulsed (heap w ! c)}"
    and b: "filter is_io_event (trace w) =
       concat (map (\<lambda>c. completion_events (heap w ! c) c) (pulses_of (trace w)))"
    using assms(1) by (simp_all add: wf_world_def)
  have "?c \<in> set (inflight w)" using assms(2) by simp
  then have c: "?c < length (heap w)" "\<not> pulsed (heap w ! ?c)"
    unfolding s by simp_all
  have same: "\<And>x. completion_events (?h ! x) x = completion_events (heap w ! x) x"
    using c(1) by (simp add: nth_list_update)
  have p: "\<And>x. (x < length (heap w) \<and> pulsed (?h ! x)) \<longleftrightarrow>
      (x = ?c \<or> (x < length (heap w) \<and> pulsed (heap w ! x)))"
    using c(1) by (auto simp: nth_list_update)
  have np: "\<And>x. (x < length (heap w) \<and> \<not> pulsed (?h ! x)) \<longleftrightarrow>
      (x \<noteq> ?c \<and> (x < length (heap w) \<and> \<not> pulsed (heap w ! x)))"
    using c(1) by (auto simp: nth_list_update)
  have 1: "distinct (inflight (complete_write k w))"
    using remove_nth_distinct(1) [OF d assms(2)] by (simp add: inflight_complete_write)
  have 2: "set (inflight (complete_write k w)) =
      {c. c < length (heap (complete_write k w)) \<and> \<not> pulsed (heap (complete_write k w) ! c)}"
    unfolding inflight_complete_write remove_nth_distinct(2) [OF d assms(2)] s
    by (simp add: np) blast
  have "?c \<notin> set (pulses_of (trace w))" unfolding sp using c(2) by simp
  then have 3: "distinct (pulses_of (trace (complete_write k w)))"
    using dp c(1) by simp
  have 4: "set (pulses_of (trace (complete_write k w))) =
      {c. c < length (heap (complete_write k w)) \<and> pulsed (heap (complete_write k w) ! c)}"
    using c(1) by (simp add: p sp) blast
  have 5: "filter is_io_event (trace (complete_write k w)) =
       concat (map (\<lambda>c. completion_events (heap (complete_write k w) ! c) c)
         (pulses_of (trace (complete_write k w))))"
    using b c(1) by (simp add: same)
  show ?thesis
    unfolding wf_world_def using 1 2 3 4 5 by blast
qed

lemma wf_log_event:
  assumes "wf_world w" "\<not> is_io_event e"
  shows "wf_world (log_event e w)"
  using assms by (simp add: wf_world_def pulses_of_call)

lemma nth_snoc_unpulsed:
  assumes "\<not> pulsed obj"
  shows "(c < Suc (length xs) \<and> \<not> pulsed ((xs @ [obj]) ! c)) \<longleftrightarrow>
      (c = length xs \<or> (c < length xs \<and> \<not> pulsed (xs ! c)))"
proof -
  consider "c < length xs" | "c = length xs" | "length xs < c" by linarith
  then show ?thesis using assms by cases (simp_all add: nth_append)
qed

lemma nth_snoc_pulsed:
  assumes "\<not> pulsed obj"
  shows "(c < Suc (length xs) \<and> pulsed ((xs @ [obj]) ! c)) \<longleftrightarrow>
      (c < length xs \<and> pulsed (xs ! c))"
proof -
  consider "c < length xs" | "c = length xs" | "length xs < c" by linarith
  then show ?thesis using assms by cases (simp_all add: nth_append)
qed

lemma wf_register:
  assumes "wf_world w" "\<not> pulsed obj"
  shows "wf_world (w\<lparr>heap := heap w @ [obj], ser_state := s,
                     inflight := inflight w @ [length (heap w)]\<rparr>)"
proof -
  let ?w = "w\<lparr>heap := heap w @ [obj], ser_state := s,
                     inflight := inflight w @ [length (heap w)]\<rparr>"
  have d: "distinct (inflight w)"
    and s: "set (inflight w) = {c. c < length (heap w) \<and> \<not> pulsed (heap w ! c)}"
    and dp: "distinct (pulses_of (trace w))"
    and sp: "set (pulses_of (trace w)) = {c. c < length (heap w) \<and> pulsed (heap w ! c)}"
    and b: "filter is_io_event (trace w) =
       concat (map (\<lambda>c. completion_events (heap w ! c) c) (pulses_of (trace w)))"
    using assms(1) by (simp_all add: wf_world_def)
  have "length (heap w) \<notin> set (inflight w)" unfolding s by simp
  then have 1: "distinct (inflight ?w)" using d by simp
  have "{c. c < Suc (length (heap w)) \<and> \<not> pulsed ((heap w @ [obj]) ! c)} =
      insert (length (heap w)) {c. c < length (heap w) \<and> \<not> pulsed (heap w ! c)}"
    unfolding nth_snoc_unpulsed [OF assms(2)] by blast
  then have 2: "set (inflight ?w) = {c. c < length (heap ?w) \<and> \<not> pulsed (heap ?w ! c)}"
    unfolding s [symmetric] by simp
  have 3: "distinct (pulses_of (trace ?w))" using dp by simp
  have 4: "set (pulses_of (trace ?w)) = {c. c < length (heap ?w) \<and> pulsed (heap ?w ! c)}"
    using sp by (simp add: nth_snoc_pulsed [OF assms(2)])
  have "concat (map (\<lambda>c. completion_events ((heap w @ [obj]) ! c) c) (pulses_of (trace w))) =
        concat (map (\<lambda>c. completion_events (heap w ! c) c) (pulses_of (trace w)))"
    by (rule concat_map_cong_set) (simp add: nth_append wf_pulses_bound [OF assms(1)])
  then have 5: "filter is_io_event (trace ?w) =
       concat (map (\<lambda>c. completion_events (heap ?w ! c) c) (pulses_of (trace ?w)))"
    using b by simp
  show ?thesis unfolding wf_world_def using 1 2 3 4 5 by blast
qed

subsection \<open>Completions\<close>

lemma early_completes: "completes w (early_completions io w)"
proof (induction io w rule: early_completions.induct)
  case (1 io w)
  show ?case
  proof (cases "inflight w = []")
    case True
    then show ?thesis by (simp add: completes_refl early_completions.simps [of io w])
  next
    case ne: False
    show ?thesis
    proof (cases "early io (trace w)")
      case None
      with ne show ?thesis by (simp add: completes_refl early_completions.simps [of io w])
    next
      case (Some k)
      have "k mod length (inflight w) < length (inflight w)" using ne by simp
      moreover have "completes (complete_write (k mod length (inflight w)) w)
          (early_completions io (complete_write (k mod length (inflight w)) w))"
        using "1.IH" [OF ne Some] .
      ultimately have "completes w
          (early_completions io (complete_write (k mod length (inflight w)) w))"
        by (rule completes_step)
      then show ?thesis using ne Some by (simp add: early_completions.simps [of io w])
    qed
  qed
qed

lemma wait_pulsed_completes:
  "wait_pulsed io c w = Inr w' \<Longrightarrow> completes w w' \<and> is_pulsed w' c"
proof (induction io c w rule: wait_pulsed.induct)
  case (1 io c w)
  show ?case
  proof (cases "is_pulsed w c")
    case True
    with "1.prems" show ?thesis by (simp add: completes_refl wait_pulsed.simps [of io c w])
  next
    case np: False
    with "1.prems" have ne: "inflight w \<noteq> []"
      by (auto simp: wait_pulsed.simps [of io c w] split: if_splits)
    let ?k = "pick io (trace w) mod length (inflight w)"
    have r: "wait_pulsed io c (complete_write ?k w) = Inr w'"
      using "1.prems" np ne by (simp add: wait_pulsed.simps [of io c w])
    have "completes (complete_write ?k w) w' \<and> is_pulsed w' c"
      using "1.IH" [OF np ne r] .
    moreover have "?k < length (inflight w)" using ne by simp
    ultimately show ?thesis by (blast intro: completes_step)
  qed
qed

lemma completes_wf: "completes w w' \<Longrightarrow> wf_world w \<Longrightarrow> wf_world w'"
  by (induction rule: completes.induct) (simp_all add: wf_complete_write)

lemma completes_fields:
  "completes w w' \<Longrightarrow> ser_state w' = ser_state w \<and> length (heap w') = length (heap w)"
  by (induction rule: completes.induct) simp_all

lemma completes_trace:
  "completes w w' \<Longrightarrow> \<exists>xs. trace w' = trace w @ xs \<and> calls xs = []"
proof (induction rule: completes.induct)
  case (completes_refl w)
  show ?case by simp
next
  case (completes_step k w w')
  then obtain xs where "trace w' = trace (complete_write k w) @ xs" "calls xs = []"
    by blast
  then show ?case by (cases "inflight w ! k < length (heap w)") simp_all
qed

lemma completes_pulsed: "completes w w' \<Longrightarrow> is_pulsed w c \<Longrightarrow> is_pulsed w' c"
proof (induction rule: completes.induct)
  case (completes_refl w)
  then show ?case .
next
  case (completes_step k w w')
  have "is_pulsed (complete_write k w) c"
    using completes_step.prems
    by (cases "c = inflight w ! k") (simp_all add: is_pulsed_def)
  then show ?case by (rule completes_step.IH)
qed

lemma completes_trans: "completes a b \<Longrightarrow> completes b c \<Longrightarrow> completes a c"
  by (induction rule: completes.induct) (auto intro: completes_step)

lemma wait_completes:
  assumes "wait io c w = Inr w'"
  shows "completes (log_event (EvWait c) w) w' \<and> is_pulsed w' c"
proof -
  from assms obtain w1
    where w1: "wait_pulsed io c (log_event (EvWait c) w) = Inr w1"
      and w': "w' = early_completions io w1"
    by (auto simp: wait_def split: sum.splits)
  have a: "completes (log_event (EvWait c) w) w1" and p: "is_pulsed w1 c"
    using wait_pulsed_completes [OF w1] by simp_all
  have b: "completes w1 w'" unfolding w' by (rule early_completes)
  show ?thesis using completes_trans [OF a b] completes_pulsed [OF b p] by simp
qed

lemma wait_pulsed_total:
  "wf_world w \<Longrightarrow> c < length (heap w) \<Longrightarrow> \<exists>w'. wait_pulsed io c w = Inr w'"
proof (induction io c w rule: wait_pulsed.induct)
  case (1 io c w)
  show ?case
  proof (cases "is_pulsed w c")
    case True
    then show ?thesis by (simp add: wait_pulsed.simps [of io c w])
  next
    case np: False
    with "1.prems" have "c \<in> set (inflight w)" by (simp add: wf_world_def is_pulsed_def)
    then have ne: "inflight w \<noteq> []" by auto
    let ?k = "pick io (trace w) mod length (inflight w)"
    have k: "?k < length (inflight w)" using ne by simp
    have "\<exists>w'. wait_pulsed io c (complete_write ?k w) = Inr w'"
      using "1.IH" [OF np ne wf_complete_write [OF "1.prems"(1) k]] "1.prems"(2) by simp
    then show ?thesis using np ne by (simp add: wait_pulsed.simps [of io c w])
  qed
qed

subsection \<open>One descriptor\<close>

lemma perform_write_delete [simp]:
  "action wr = DELETE \<Longrightarrow>
   perform_write ser io wr acct conds op w =
     Inr (conds, op\<lparr>token := Some None, recency := Some invalid\<rparr>, w)"
  by (simp add: perform_write_def)

lemma perform_write_touch [simp]:
  "action wr = TOUCH rec \<Longrightarrow>
   perform_write ser io wr acct conds op w = Inr (conds, op\<lparr>recency := Some rec\<rparr>, w)"
  by (simp add: perform_write_def)

lemma block_writes_eq:
  "block_writes ser io
     [buf_write_info (convert_buffer_cache_buf_to_ser_buffer ser b)
        (get_block_size_ser_value ser) bid] acct (length (heap w))
     (w\<lparr>heap := heap w @ [obj]\<rparr>) =
   (issued ser acct b bid w, early_completions io (submitted ser acct b bid obj w))"
  by (cases "block_writes_impl ser
            [buf_write_info (convert_buffer_cache_buf_to_ser_buffer ser b)
               (get_block_size_ser_value ser) bid] acct (ser_state w)")
     (simp add: block_writes_def submitted_def issued_def)

lemma perform_write_update:
  assumes "action wr = UPDATE b rec iocb lcb"
  shows "perform_write ser io wr acct conds op w =
     (case issued ser acct b (op_block_id op) w of
        [t] \<Rightarrow>
          Inr (conds @ [length (heap w)], op\<lparr>token := Some t, recency := Some rec\<rparr>,
               (case lcb of
                  Some cb \<Rightarrow> log_event (EvWriteLaunched cb t)
                    (early_completions io
                       (submitted ser acct b (op_block_id op) (write_cond_t iocb False) w))
                | None \<Rightarrow> early_completions io
                       (submitted ser acct b (op_block_id op) (write_cond_t iocb False) w)))
      | _ \<Rightarrow> Inl GuaranteeFailed)"
  by (simp add: perform_write_def assms block_writes_eq split: list.splits)

lemma serializer_block_write_eq:
  "serializer_block_write ser io b bid acct w =
     (case issued ser acct b bid w of
        [t] \<Rightarrow>
          (case wait io (length (heap w))
                  (early_completions io (submitted ser acct b bid (block_write_cb False) w)) of
             Inl e \<Rightarrow> Inl e
           | Inr w3 \<Rightarrow> Inr (t, w3))
      | _ \<Rightarrow> Inl GuaranteeFailed)"
  by (simp add: serializer_block_write_def block_writes_eq)

lemma submitted_fields:
  "heap (submitted ser acct b bid obj w) = heap w @ [obj]"
  "inflight (submitted ser acct b bid obj w) = inflight w @ [length (heap w)]"
  "trace (submitted ser acct b bid obj w) =
     trace w @ [EvBlockWrites
        [buf_write_info (convert_buffer_cache_buf_to_ser_buffer ser b)
               (get_block_size_ser_value ser) bid] acct (length (heap w)) (issued ser acct b bid w)]"
  "ser_state (submitted ser acct b bid obj w) =
     snd (block_writes_impl ser
            [buf_write_info (convert_buffer_cache_buf_to_ser_buffer ser b)
               (get_block_size_ser_value ser) bid] acct (ser_state w))"
  by (simp_all add: submitted_def issued_def Let_def split: prod.splits)

lemma wf_submitted:
  assumes "wf_world w" "\<not> pulsed obj"
  shows "wf_world (submitted ser acct b bid obj w)"
  unfolding submitted_def Let_def
  by (simp split: prod.splits add: wf_log_event wf_register [OF assms])

subsection \<open>The dispatch phase\<close>

lemma upt_append_upt: "i \<le> j \<Longrightarrow> j \<le> k \<Longrightarrow> [i..<j] @ [j..<k] = [i..<(k::nat)]"
  using upt_add_eq_append [of i j "k - j"] by simp

lemma perform_write_update_step:
  assumes "action wr = UPDATE b rec iocb lcb" "wf_world w"
    and "perform_write ser io wr acct conds op w = Inr (conds', op', w')"
  shows "\<exists>t xs. issued ser acct b (op_block_id op) w = [t] \<and>
           op' = op\<lparr>token := Some t, recency := Some rec\<rparr> \<and>
           conds' = conds @ [length (heap w)] \<and>
           trace w' = trace w @ xs \<and>
           calls xs =
             EvBlockWrites
               [buf_write_info (convert_buffer_cache_buf_to_ser_buffer ser b)
                  (get_block_size_ser_value ser) (op_block_id op)] acct (length (heap w)) [t] #
             (case lcb of Some cb \<Rightarrow> [EvWriteLaunched cb t] | None \<Rightarrow> []) \<and>
           wf_world w' \<and> length (heap w') = Suc (length (heap w))"
proof -
  let ?W0 = "submitted ser acct b (op_block_id op) (write_cond_t iocb False) w"
  let ?W1 = "early_completions io ?W0"
  from assms(3) obtain t where t: "issued ser acct b (op_block_id op) w = [t]"
    and res: "conds' = conds @ [length (heap w)]" "op' = op\<lparr>token := Some t, recency := Some rec\<rparr>"
      "w' = (case lcb of Some cb \<Rightarrow> log_event (EvWriteLaunched cb t) ?W1 | None \<Rightarrow> ?W1)"
    unfolding perform_write_update [OF assms(1)]
    by (auto split: list.splits)
  have c: "completes ?W0 ?W1" by (rule early_completes)
  have wf0: "wf_world ?W0" using assms(2) by (simp add: wf_submitted)
  have wf1: "wf_world ?W1" using c wf0 by (rule completes_wf)
  obtain ios where ios: "trace ?W1 = trace ?W0 @ ios" "calls ios = []"
    using completes_trace [OF c] by blast
  have len: "length (heap ?W1) = Suc (length (heap w))"
    using completes_fields [OF c] by (simp add: submitted_fields)
  show ?thesis
  proof (cases lcb)
    case None
    with res(3) have "w' = ?W1" by simp
    then show ?thesis
      using t res(1,2) ios wf1 len None by (simp add: submitted_fields)
  next
    case (Some cb)
    with res(3) have "w' = log_event (EvWriteLaunched cb t) ?W1" by simp
    then show ?thesis
      using t res(1,2) ios wf1 len Some by (simp add: submitted_fields wf_log_event)
  qed
qed

lemma write_buffers_dispatch:
  assumes "wf_world w"
    and "write_buffers ser io writes acct conds ops w = Inr (conds', ops', w')"
  shows "\<exists>new xs. ops' = ops @ new \<and> list_all2 op_for writes new \<and>
           trace w' = trace w @ xs \<and>
           calls xs = dispatch_calls ser acct (length (heap w)) writes new \<and>
           wf_world w' \<and>
           conds' = conds @ [length (heap w)..<length (heap w')] \<and>
           length (heap w') = length (heap w) + length (filter is_update writes)"
  using assms
proof (induction writes arbitrary: conds ops w)
  case Nil
  then show ?case by simp
next
  case (Cons wr writes)
  let ?op = "index_write_op (block_id wr)"
  from Cons.prems(2) obtain conds1 op1 w1
    where step: "perform_write ser io wr acct conds ?op w = Inr (conds1, op1, w1)"
      and rest: "write_buffers ser io writes acct conds1 (ops @ [op1]) w1 = Inr (conds', ops', w')"
    by (auto split: sum.splits)
  have "\<exists>xs1. trace w1 = trace w @ xs1 \<and> calls xs1 = update_calls ser acct (length (heap w)) wr op1 \<and>
          op_for wr op1 \<and> wf_world w1 \<and>
          conds1 = conds @ [length (heap w)..<length (heap w1)] \<and>
          length (heap w1) = (if is_update wr then Suc (length (heap w)) else length (heap w))"
  proof (cases "action wr")
    case (UPDATE b rec iocb lcb)
    from perform_write_update_step [OF UPDATE Cons.prems(1) step]
    show ?thesis using UPDATE by (auto simp: index_write_op_def)
  next
    case DELETE
    with step Cons.prems(1) show ?thesis by (auto simp: index_write_op_def)
  next
    case (TOUCH rec)
    with step Cons.prems(1) show ?thesis by (auto simp: index_write_op_def)
  qed
  then obtain xs1 where s1: "trace w1 = trace w @ xs1"
      "calls xs1 = update_calls ser acct (length (heap w)) wr op1"
      "op_for wr op1" "wf_world w1"
      "conds1 = conds @ [length (heap w)..<length (heap w1)]"
      "length (heap w1) = (if is_update wr then Suc (length (heap w)) else length (heap w))"
    by blast
  from Cons.IH [OF s1(4) rest] obtain new xs
    where ih: "ops' = (ops @ [op1]) @ new" "list_all2 op_for writes new"
      "trace w' = trace w1 @ xs"
      "calls xs = dispatch_calls ser acct (length (heap w1)) writes new"
      "wf_world w'"
      "conds' = conds1 @ [length (heap w1)..<length (heap w')]"
      "length (heap w') = length (heap w1) + length (filter is_update writes)"
    by blast
  have le: "length (heap w) \<le> length (heap w1)" "length (heap w1) \<le> length (heap w')"
    using s1(6) ih(7) by (simp_all split: if_splits)
  have 1: "ops' = ops @ (op1 # new)" using ih(1) by simp
  have 2: "list_all2 op_for (wr # writes) (op1 # new)" using s1(3) ih(2) by simp
  have 3: "trace w' = trace w @ (xs1 @ xs)" using s1(1) ih(3) by simp
  have 4: "calls (xs1 @ xs) = dispatch_calls ser acct (length (heap w)) (wr # writes) (op1 # new)"
    using s1(2,6) ih(4) by simp
  have 5: "conds' = conds @ [length (heap w)..<length (heap w')]"
    using s1(5) ih(6) le by (simp add: upt_append_upt)
  have 6: "length (heap w') = length (heap w) + length (filter is_update (wr # writes))"
    using s1(6) ih(7) by simp
  show ?case using 1 2 3 4 5 6 ih(5) by blast
qed

subsection \<open>The barrier phase\<close>

lemma wait_barrier:
  assumes "wf_world w" "c < length (heap w)"
  shows "\<exists>w' ys. wait io c w = Inr w' \<and> wf_world w' \<and> trace w' = trace w @ ys \<and>
           calls ys = [EvWait c] \<and> length (heap w') = length (heap w) \<and>
           ser_state w' = ser_state w \<and> is_pulsed w' c \<and>
           (\<forall>d. is_pulsed w d \<longrightarrow> is_pulsed w' d)"
proof -
  let ?w0 = "log_event (EvWait c) w"
  have wf0: "wf_world ?w0" using assms(1) by (simp add: wf_log_event)
  then obtain w1 where "wait_pulsed io c ?w0 = Inr w1"
    using wait_pulsed_total [of ?w0 c io] assms(2) by auto
  then obtain w' where r: "wait io c w = Inr w'" by (simp add: wait_def)
  then have c: "completes ?w0 w'" and p: "is_pulsed w' c"
    using wait_completes by blast+
  obtain ios where ios: "trace w' = trace ?w0 @ ios" "calls ios = []"
    using completes_trace [OF c] by blast
  have "\<And>d. is_pulsed w d \<Longrightarrow> is_pulsed w' d"
    using completes_pulsed [OF c] by (simp add: is_pulsed_def)
  then show ?thesis
    using r p ios completes_wf [OF c wf0] completes_fields [OF c]
    by simp
qed

lemma wait_on_all_barrier:
  assumes "wf_world w" "\<forall>c\<in>set cs. c < length (heap w)"
  shows "\<exists>w' ys. wait_on_all io cs w = Inr w' \<and> wf_world w' \<and> trace w' = trace w @ ys \<and>
           calls ys = concat (map (\<lambda>c. [EvWait c, EvDelete c]) cs) \<and>
           length (heap w') = length (heap w) \<and> ser_state w' = ser_state w \<and>
           (\<forall>c\<in>set cs. is_pulsed w' c) \<and> (\<forall>d. is_pulsed w d \<longrightarrow> is_pulsed w' d)"
  using assms
proof (induction cs arbitrary: w)
  case Nil
  then show ?case by simp
next
  case (Cons c cs)
  from wait_barrier [of w c io] Cons.prems obtain w1 ys1
    where w1: "wait io c w = Inr w1" "wf_world w1" "trace w1 = trace w @ ys1"
      "calls ys1 = [EvWait c]" "length (heap w1) = length (heap w)"
      "ser_state w1 = ser_state w" "is_pulsed w1 c" "\<forall>d. is_pulsed w d \<longrightarrow> is_pulsed w1 d"
    by auto
  let ?w2 = "log_event (EvDelete c) w1"
  have wf2: "wf_world ?w2" using w1(2) by (simp add: wf_log_event)
  have b2: "\<forall>c\<in>set cs. c < length (heap ?w2)" using Cons.prems(2) w1(5) by simp
  from Cons.IH [OF wf2 b2] obtain w' ys
    where ih: "wait_on_all io cs ?w2 = Inr w'" "wf_world w'" "trace w' = trace ?w2 @ ys"
      "calls ys = concat (map (\<lambda>c. [EvWait c, EvDelete c]) cs)"
      "length (heap w') = length (heap ?w2)" "ser_state w' = ser_state ?w2"
      "\<forall>c\<in>set cs. is_pulsed w' c" "\<forall>d. is_pulsed ?w2 d \<longrightarrow> is_pulsed w' d"
    by blast
  have p2: "\<And>d. is_pulsed ?w2 d = is_pulsed w1 d" by (simp add: is_pulsed_def)
  have 1: "wait_on_all io (c # cs) w = Inr w'" using w1(1) ih(1) by simp
  have 2: "trace w' = trace w @ (ys1 @ EvDelete c # ys)" using w1(3) ih(3) by simp
  have 3: "calls (ys1 @ EvDelete c # ys) = concat (map (\<lambda>c. [EvWait c, EvDelete c]) (c # cs))"
    using w1(4) ih(4) by simp
  have 4: "length (heap w') = length (heap w)" "ser_state w' = ser_state w"
    using w1(5,6) ih(5,6) by simp_all
  have 5: "\<forall>d\<in>set (c # cs). is_pulsed w' d" using ih(7,8) w1(7) p2 by simp
  have 6: "\<forall>d. is_pulsed w d \<longrightarrow> is_pulsed w' d" using ih(8) w1(8) p2 by simp
  show ?case using 1 2 3 4 5 6 ih(2) by blast
qed

subsection \<open>A whole batch\<close>

lemma issued_one_token:
  assumes "one_token_per_write ser"
  shows "\<exists>t. issued ser acct b bid w = [t]"
proof -
  have "length (issued ser acct b bid w) = 1"
    using assms by (simp add: one_token_per_write_def issued_def)
  then show ?thesis by (cases "issued ser acct b bid w") simp_all
qed

lemma perform_write_total:
  assumes "one_token_per_write ser"
  shows "\<exists>r. perform_write ser io wr acct conds op w = Inr r"
proof (cases "action wr")
  case (UPDATE b rec iocb lcb)
  obtain t where "issued ser acct b (op_block_id op) w = [t]"
    using issued_one_token [OF assms] by blast
  then show ?thesis by (simp add: perform_write_update [OF UPDATE])
next
  case DELETE
  then show ?thesis by simp
next
  case (TOUCH rec)
  then show ?thesis by simp
qed

lemma write_buffers_total:
  assumes "one_token_per_write ser"
  shows "\<exists>r. write_buffers ser io writes acct conds ops w = Inr r"
proof (induction writes arbitrary: conds ops w)
  case Nil
  show ?case by simp
next
  case (Cons wr writes)
  obtain conds1 op1 w1
    where "perform_write ser io wr acct conds (index_write_op (block_id wr)) w =
        Inr (conds1, op1, w1)"
    using perform_write_total [OF assms] by (metis prod_cases3)
  then show ?case using Cons.IH [of conds1 "ops @ [op1]" w1] by simp
qed

lemma do_writes_run:
  assumes "wf_world w" "do_writes ser io writes acct w = Inr w'"
  shows "\<exists>ops xs ys w1 w2.
     write_buffers ser io writes acct [] [] w =
       Inr ([length (heap w)..<length (heap w')], ops, w1) \<and>
     wait_on_all io [length (heap w)..<length (heap w')] w1 = Inr w2 \<and>
     w' = index_write ser ops acct w2 \<and>
     list_all2 op_for writes ops \<and>
     trace w1 = trace w @ xs \<and> trace w2 = trace w1 @ ys \<and>
     calls xs = dispatch_calls ser acct (length (heap w)) writes ops \<and>
     calls ys = concat (map (\<lambda>c. [EvWait c, EvDelete c]) [length (heap w)..<length (heap w')]) \<and>
     length (heap w') = length (heap w) + length (filter is_update writes) \<and>
     length (heap w1) = length (heap w') \<and> ser_state w2 = ser_state w1 \<and>
     wf_world w1 \<and> wf_world w2 \<and>
     (\<forall>c\<in>set [length (heap w)..<length (heap w')]. is_pulsed w2 c) \<and>
     (\<forall>d. is_pulsed w1 d \<longrightarrow> is_pulsed w2 d)"
proof -
  from assms(2) obtain conds ops w1 w2
    where d: "write_buffers ser io writes acct [] [] w = Inr (conds, ops, w1)"
      and b: "wait_on_all io conds w1 = Inr w2"
      and c: "w' = index_write ser ops acct w2"
    by (auto simp: do_writes_def split: sum.splits)
  from write_buffers_dispatch [OF assms(1) d] obtain xs
    where dp: "list_all2 op_for writes ops" "trace w1 = trace w @ xs"
      "calls xs = dispatch_calls ser acct (length (heap w)) writes ops" "wf_world w1"
      "conds = [length (heap w)..<length (heap w1)]"
      "length (heap w1) = length (heap w) + length (filter is_update writes)"
    by auto
  have bound: "\<forall>c\<in>set conds. c < length (heap w1)" using dp(5) by simp
  from wait_on_all_barrier [OF dp(4) bound, of io] b obtain ys
    where bp: "wf_world w2" "trace w2 = trace w1 @ ys"
      "calls ys = concat (map (\<lambda>c. [EvWait c, EvDelete c]) conds)"
      "length (heap w2) = length (heap w1)" "ser_state w2 = ser_state w1"
      "\<forall>c\<in>set conds. is_pulsed w2 c" "\<forall>d. is_pulsed w1 d \<longrightarrow> is_pulsed w2 d"
    by auto
  have h: "length (heap w') = length (heap w1)" using c bp(4) by (simp add: index_write_def)
  show ?thesis
    using d b c dp bp h by (intro exI [of _ ops] exI [of _ xs] exI [of _ ys] exI [of _ w1] exI [of _ w2]) simp
qed

lemma do_writes_total:
  assumes "one_token_per_write ser" "wf_world w"
  shows "\<exists>w'. do_writes ser io writes acct w = Inr w'"
proof -
  obtain conds ops w1 where d: "write_buffers ser io writes acct [] [] w = Inr (conds, ops, w1)"
    using write_buffers_total [OF assms(1)] by (metis prod_cases3)
  from write_buffers_dispatch [OF assms(2) d]
  have "wf_world w1" "conds = [length (heap w)..<length (heap w1)]" by auto
  then obtain w2 where "wait_on_all io conds w1 = Inr w2"
    using wait_on_all_barrier [of w1 conds io] by auto
  with d show ?thesis by (simp add: do_writes_def)
qed

subsection \<open>Projections of a trace\<close>

lemma map_filter_calls:
  assumes "\<And>e. is_io_event e \<Longrightarrow> f e = None"
  shows "List.map_filter f tr = List.map_filter f (calls tr)"
  by (induction tr) (auto simp: List.map_filter_simps assms split: option.splits)

lemma map_filter_empty:
  "(\<And>e. e \<in> set tr \<Longrightarrow> f e = None) \<Longrightarrow> List.map_filter f tr = []"
  by (induction tr) (simp_all add: List.map_filter_simps)


lemma commits_calls: "commits tr = commits (calls tr)"
  unfolding commits_def by (rule map_filter_calls) (erule is_io_event.elims; simp)

lemma launches_calls: "launches tr = launches (calls tr)"
  unfolding launches_def by (rule map_filter_calls) (erule is_io_event.elims; simp)

lemma commits_append [simp]: "commits (xs @ ys) = commits xs @ commits ys"
  by (simp add: commits_def map_filter_append)

lemma launches_append [simp]: "launches (xs @ ys) = launches xs @ launches ys"
  by (simp add: launches_def map_filter_append)

lemma dispatch_calls_events:
  "e \<in> set (dispatch_calls ser acct n writes ops) \<Longrightarrow>
   (\<exists>infos a c toks. e = EvBlockWrites infos a c toks) \<or> (\<exists>cb t. e = EvWriteLaunched cb t)"
  by (induction ser acct n writes ops rule: dispatch_calls.induct)
     (auto split: action_t.splits option.splits if_splits)

lemma barrier_calls_events:
  "e \<in> set (concat (map (\<lambda>c. [EvWait c, EvDelete c]) cs)) \<Longrightarrow>
   (\<exists>c. e = EvWait c) \<or> (\<exists>c. e = EvDelete c)"
  by auto

lemma commits_dispatch_calls [simp]: "commits (dispatch_calls ser acct n writes ops) = []"
  unfolding commits_def by (rule map_filter_empty) (auto dest: dispatch_calls_events)

lemma commits_barrier_calls [simp]:
  "commits (concat (map (\<lambda>c. [EvWait c, EvDelete c]) cs)) = []"
  unfolding commits_def by (rule map_filter_empty) auto

lemma launches_barrier_calls [simp]:
  "launches (concat (map (\<lambda>c. [EvWait c, EvDelete c]) cs)) = []"
  unfolding launches_def by (rule map_filter_empty) auto




text \<open>The shape of the trace of a batch that starts in the initial world.\<close>

lemma do_writes_trace:
  assumes "do_writes ser io writes acct (init_world s) = Inr w'"
  shows "\<exists>ops xs ys.
     trace w' = xs @ ys @ [EvIndexWrite ops acct] \<and>
     list_all2 op_for writes ops \<and>
     calls xs = dispatch_calls ser acct 0 writes ops \<and>
     calls ys = concat (map (\<lambda>c. [EvWait c, EvDelete c]) [0..<length (heap w')]) \<and>
     length (heap w') = length (filter is_update writes) \<and>
     distinct (pulses_of (xs @ ys)) \<and>
     set (pulses_of (xs @ ys)) = {0..<length (heap w')} \<and>
     filter is_io_event (xs @ ys) =
       concat (map (\<lambda>c. completion_events (heap w' ! c) c) (pulses_of (xs @ ys)))"
proof -
  from do_writes_run [OF wf_init_world assms] obtain ops xs ys w1 w2
    where r: "w' = index_write ser ops acct w2" "list_all2 op_for writes ops"
      "write_buffers ser io writes acct [] [] (init_world s) =
         Inr ([length (heap (init_world s))..<length (heap w')], ops, w1)"
      "trace w1 = trace (init_world s) @ xs" "trace w2 = trace w1 @ ys"
      "calls xs = dispatch_calls ser acct (length (heap (init_world s))) writes ops"
      "calls ys = concat (map (\<lambda>c. [EvWait c, EvDelete c])
          [length (heap (init_world s))..<length (heap w')])"
      "length (heap w') = length (heap (init_world s)) + length (filter is_update writes)"
      "wf_world w2"
      "\<forall>c\<in>set [length (heap (init_world s))..<length (heap w')]. is_pulsed w2 c"
    by blast
  have h: "heap w' = heap w2" using r(1) by (simp add: index_write_def)
  have t2: "trace w2 = xs @ ys" using r(4,5) by (simp add: init_world_def)
  have 1: "trace w' = xs @ ys @ [EvIndexWrite ops acct]"
    using r(1) t2 by (simp add: index_write_def)
  have all: "\<And>c. c < length (heap w2) \<Longrightarrow> pulsed (heap w2 ! c)"
    using r(10) h by (simp add: init_world_def is_pulsed_def)
  have "set (pulses_of (trace w2)) = {c. c < length (heap w2) \<and> pulsed (heap w2 ! c)}"
    using r(9) by (simp add: wf_world_def)
  also have "\<dots> = {0..<length (heap w2)}" using all by auto
  finally have 2: "set (pulses_of (xs @ ys)) = {0..<length (heap w')}" using t2 h by simp
  have 3: "distinct (pulses_of (xs @ ys))" using r(9) t2 by (simp add: wf_world_def)
  have 4: "filter is_io_event (xs @ ys) =
       concat (map (\<lambda>c. completion_events (heap w' ! c) c) (pulses_of (xs @ ys)))"
    using r(9) t2 h by (simp add: wf_world_def)
  show ?thesis
    using 1 2 3 4 r(2,6,7,8) by (simp add: init_world_def) blast
qed

subsection \<open>The worked batch\<close>

lemma example_run:
  "do_writes counting_serializer io_second_first example_batch 0 (init_world (0, [])) =
     Inr example_world"
  by code_simp

lemma one_token_counting_serializer: "one_token_per_write counting_serializer"
  by (simp add: one_token_per_write_def counting_serializer_def split: prod.splits)

lemma commits_commit [simp]: "commits [EvIndexWrite ops acct] = [(ops, acct)]"
  by (simp add: commits_def List.map_filter_simps)

lemma launches_commit [simp]: "launches [EvIndexWrite ops acct] = []"
  by (simp add: launches_def List.map_filter_simps)

lemma do_writes_commits:
  assumes "trace w' = xs @ ys @ [EvIndexWrite ops acct]"
    and "calls xs = dispatch_calls ser acct n writes ops"
    and "calls ys = concat (map (\<lambda>c. [EvWait c, EvDelete c]) cs)"
  shows "commits (trace w') = [(ops, acct)]"
proof -
  have "commits (trace w') = commits (calls (trace w'))" by (rule commits_calls)
  also have "\<dots> = [(ops, acct)]" using assms by simp
  finally show ?thesis .
qed

lemma do_writes_launches:
  assumes "trace w' = xs @ ys @ [EvIndexWrite ops acct]"
    and "calls xs = dispatch_calls ser acct n writes ops"
    and "calls ys = concat (map (\<lambda>c. [EvWait c, EvDelete c]) cs)"
  shows "launches (trace w') = launches (dispatch_calls ser acct n writes ops)"
proof -
  have "launches (trace w') = launches (calls (trace w'))" by (rule launches_calls)
  also have "\<dots> = launches (dispatch_calls ser acct n writes ops)" using assms by simp
  finally show ?thesis .
qed


lemma submits_calls: "submits tr = submits (calls tr)"
  unfolding submits_def by (rule map_filter_calls) (erule is_io_event.elims; simp)

lemma submits_append [simp]: "submits (xs @ ys) = submits xs @ submits ys"
  by (simp add: submits_def map_filter_append)

lemma submits_barrier_calls [simp]:
  "submits (concat (map (\<lambda>c. [EvWait c, EvDelete c]) cs)) = []"
  unfolding submits_def by (rule map_filter_empty) auto

lemma submits_dispatch_calls:
  "list_all2 op_for writes ops \<Longrightarrow>
   submits (dispatch_calls ser acct n writes ops) =
     List.map_filter (submit_for ser) (zip writes ops)"
proof (induction writes ops arbitrary: n rule: list_all2_induct)
  case Nil
  show ?case by (simp add: submits_def List.map_filter_simps)
next
  case (Cons wr writes op ops)
  have "submits (update_calls ser acct n wr op) =
      (case submit_for ser (wr, op) of None \<Rightarrow> [] | Some x \<Rightarrow> [x])"
    by (auto simp: submits_def List.map_filter_simps split: action_t.splits option.splits)
  then show ?case
    using Cons.IH by (simp add: List.map_filter_simps split: option.splits)
qed

lemma length_submits_updates:
  "list_all2 op_for writes ops \<Longrightarrow>
   length (List.map_filter (submit_for ser) (zip writes ops)) = length (filter is_update writes)"
  by (induction writes ops rule: list_all2_induct)
     (auto simp: List.map_filter_simps split: action_t.splits option.splits)

lemma do_writes_submits:
  assumes "list_all2 op_for writes ops"
    and "calls xs = dispatch_calls ser acct n writes ops"
    and "calls ys = concat (map (\<lambda>c. [EvWait c, EvDelete c]) cs)"
  shows "submits (xs @ ys) = List.map_filter (submit_for ser) (zip writes ops)"
proof -
  have "submits (xs @ ys) = submits (calls (xs @ ys))" by (rule submits_calls)
  also have "\<dots> = submits (dispatch_calls ser acct n writes ops)" using assms(2,3) by simp
  finally show ?thesis using submits_dispatch_calls [OF assms(1)] by simp
qed

subsection \<open>The callbacks behind the handles\<close>

lemma completion_events_wrapped:
  "completion_events obj c = completion_of (wrapped_callback obj) c"
  by (cases obj; cases "wrapped_callback obj"; simp add: completion_of_def)

lemma wrapped_callback_set_pulsed [simp]:
  "wrapped_callback (set_pulsed obj) = wrapped_callback obj"
  by (cases obj) simp_all

lemma map_wrapped_update:
  "map wrapped_callback (h[c := set_pulsed (h ! c)]) = map wrapped_callback h"
proof (cases "c < length h")
  case True
  then show ?thesis by (simp add: map_update list_update_same_conv)
next
  case False
  then show ?thesis by (simp add: not_less list_update_beyond)
qed

lemma completes_callbacks:
  "completes w w' \<Longrightarrow> map wrapped_callback (heap w') = map wrapped_callback (heap w)"
  by (induction rule: completes.induct) (simp_all add: map_wrapped_update)

lemma perform_write_callbacks:
  assumes "perform_write ser io wr acct conds op w = Inr (conds', op', w')"
  shows "map wrapped_callback (heap w') =
     map wrapped_callback (heap w) @ map io_callback_of (filter is_update [wr])"
proof (cases "action wr")
  case (UPDATE b rec iocb lcb)
  let ?W0 = "submitted ser acct b (op_block_id op) (write_cond_t iocb False) w"
  from assms obtain t
    where "w' = (case lcb of Some cb \<Rightarrow> log_event (EvWriteLaunched cb t)
                   (early_completions io ?W0) | None \<Rightarrow> early_completions io ?W0)"
    unfolding perform_write_update [OF UPDATE] by (auto split: list.splits)
  then have "heap w' = heap (early_completions io ?W0)" by (simp split: option.splits)
  then show ?thesis
    using completes_callbacks [OF early_completes, of io ?W0] UPDATE
    by (simp add: submitted_fields)
next
  case DELETE
  with assms show ?thesis by simp
next
  case (TOUCH rec)
  with assms show ?thesis by simp
qed

lemma write_buffers_callbacks:
  "write_buffers ser io writes acct conds ops w = Inr (conds', ops', w') \<Longrightarrow>
   map wrapped_callback (heap w') =
     map wrapped_callback (heap w) @ map io_callback_of (filter is_update writes)"
proof (induction writes arbitrary: conds ops w)
  case Nil
  then show ?case by simp
next
  case (Cons wr writes)
  from Cons.prems obtain conds1 op1 w1
    where step: "perform_write ser io wr acct conds (index_write_op (block_id wr)) w =
        Inr (conds1, op1, w1)"
      and rest: "write_buffers ser io writes acct conds1 (ops @ [op1]) w1 = Inr (conds', ops', w')"
    by (auto split: sum.splits)
  have "map wrapped_callback (heap w') =
      (map wrapped_callback (heap w) @ map io_callback_of (filter is_update [wr])) @
      map io_callback_of (filter is_update writes)"
    using Cons.IH [OF rest] perform_write_callbacks [OF step]
    by (simp del: is_update.simps io_callback_of.simps)
  then show ?case by (simp del: is_update.simps io_callback_of.simps)
qed

lemma wait_on_all_callbacks:
  "wait_on_all io cs w = Inr w' \<Longrightarrow>
   map wrapped_callback (heap w') = map wrapped_callback (heap w)"
proof (induction cs arbitrary: w)
  case Nil
  then show ?case by simp
next
  case (Cons c cs)
  from Cons.prems obtain w1
    where w1: "wait io c w = Inr w1"
      and rest: "wait_on_all io cs (log_event (EvDelete c) w1) = Inr w'"
    by (auto split: sum.splits)
  have "completes (log_event (EvWait c) w) w1" using wait_completes [OF w1] by simp
  then have "map wrapped_callback (heap w1) = map wrapped_callback (heap w)"
    using completes_callbacks by fastforce
  then show ?case using Cons.IH [OF rest] by simp
qed

lemma do_writes_callbacks:
  assumes "do_writes ser io writes acct w = Inr w'"
  shows "map wrapped_callback (heap w') =
     map wrapped_callback (heap w) @ map io_callback_of (filter is_update writes)"
proof -
  from assms obtain conds ops w1 w2
    where d: "write_buffers ser io writes acct [] [] w = Inr (conds, ops, w1)"
      and b: "wait_on_all io conds w1 = Inr w2"
      and c: "w' = index_write ser ops acct w2"
    by (auto simp: do_writes_def split: sum.splits)
  have "heap w' = heap w2" using c by (simp add: index_write_def)
  then show ?thesis
    using write_buffers_callbacks [OF d] wait_on_all_callbacks [OF b] by simp
qed

lemma concat_completions:
  assumes "\<And>c. c \<in> set cs \<Longrightarrow> c < length h"
  shows "concat (map (\<lambda>c. completion_events (h ! c) c) cs) =
     concat (map (\<lambda>c. completion_of (map wrapped_callback h ! c) c) cs)"
  by (rule concat_map_cong_set) (simp add: completion_events_wrapped assms)

subsection \<open>The single-block path and a batch of one UPDATE\<close>

lemma as_write_conds_fields [simp]:
  "trace (as_write_conds w) = trace w"
  "inflight (as_write_conds w) = inflight w"
  "ser_state (as_write_conds w) = ser_state w"
  "heap (as_write_conds w) = map as_write_cond (heap w)"
  by (simp_all add: as_write_conds_def)

lemma as_write_cond_pulsed [simp]: "pulsed (as_write_cond obj) = pulsed obj"
  by (cases obj) simp_all

lemma as_write_cond_set_pulsed [simp]:
  "set_pulsed (as_write_cond obj) = as_write_cond (set_pulsed obj)"
  by (cases obj) simp_all

lemma as_write_conds_init [simp]: "as_write_conds (init_world s) = init_world s"
  by (simp add: as_write_conds_def init_world_def)

lemma is_pulsed_as_write_conds [simp]: "is_pulsed (as_write_conds w) c = is_pulsed w c"
  by (auto simp: is_pulsed_def)

lemma log_event_as_write_conds:
  "log_event e (as_write_conds w) = as_write_conds (log_event e w)"
  by (simp add: log_event_def as_write_conds_def)

lemma pulse_as_write_conds: "pulse c (as_write_conds w) = as_write_conds (pulse c w)"
  by (simp add: pulse_def log_event_def as_write_conds_def map_update)

lemma on_io_complete_as_write_conds:
  "on_io_complete (as_write_cond obj) c (as_write_conds w) =
     as_write_conds (on_io_complete obj c w)"
  by (cases obj; cases "wrapped_callback obj")
     (simp_all add: pulse_as_write_conds log_event_as_write_conds)

lemma complete_write_as_write_conds:
  "complete_write k (as_write_conds w) = as_write_conds (complete_write k w)"
proof (cases "inflight w ! k < length (heap w)")
  case True
  have "w\<lparr>heap := map as_write_cond (heap w),
          inflight := take k (inflight w) @ drop (Suc k) (inflight w)\<rparr> =
        as_write_conds (w\<lparr>inflight := take k (inflight w) @ drop (Suc k) (inflight w)\<rparr>)"
    by (simp add: as_write_conds_def)
  then show ?thesis
    using True
    by (simp add: complete_write_def Let_def on_io_complete_as_write_conds [symmetric])
next
  case False
  then show ?thesis by (simp add: complete_write_def Let_def as_write_conds_def)
qed

lemma early_completions_as_write_conds:
  "early_completions io (as_write_conds w) = as_write_conds (early_completions io w)"
proof (induction io w rule: early_completions.induct)
  case (1 io w)
  show ?case
  proof (cases "inflight w = []")
    case True
    then show ?thesis
      by (simp add: early_completions.simps [of io w]
          early_completions.simps [of io "as_write_conds w"])
  next
    case ne: False
    show ?thesis
    proof (cases "early io (trace w)")
      case None
      with ne show ?thesis
        by (simp add: early_completions.simps [of io w]
            early_completions.simps [of io "as_write_conds w"])
    next
      case (Some k)
      with ne "1.IH" [OF ne Some] show ?thesis
        by (simp add: early_completions.simps [of io w]
            early_completions.simps [of io "as_write_conds w"] complete_write_as_write_conds)
    qed
  qed
qed

lemma wait_pulsed_as_write_conds:
  "wait_pulsed io c (as_write_conds w) = map_sum id as_write_conds (wait_pulsed io c w)"
proof (induction io c w rule: wait_pulsed.induct)
  case (1 io c w)
  show ?case
  proof (cases "is_pulsed w c")
    case True
    then show ?thesis
      by (simp add: wait_pulsed.simps [of io c w] wait_pulsed.simps [of io c "as_write_conds w"])
  next
    case np: False
    show ?thesis
    proof (cases "inflight w = []")
      case True
      with np show ?thesis
        by (simp add: wait_pulsed.simps [of io c w]
            wait_pulsed.simps [of io c "as_write_conds w"])
    next
      case ne: False
      with np "1.IH" [OF np ne] show ?thesis
        by (simp add: wait_pulsed.simps [of io c w]
            wait_pulsed.simps [of io c "as_write_conds w"] complete_write_as_write_conds)
    qed
  qed
qed

lemma wait_as_write_conds:
  "wait io c (as_write_conds w) = map_sum id as_write_conds (wait io c w)"
  by (cases "wait_pulsed io c (log_event (EvWait c) w)")
     (simp_all add: wait_def log_event_as_write_conds wait_pulsed_as_write_conds
        early_completions_as_write_conds)

lemma submitted_as_write_conds:
  "submitted ser acct b bid (write_cond_t None False) (as_write_conds w) =
     as_write_conds (submitted ser acct b bid (block_write_cb False) w)"
  by (simp add: submitted_def Let_def log_event_def as_write_conds_def split: prod.splits)

lemma issued_as_write_conds [simp]:
  "issued ser acct b bid (as_write_conds w) = issued ser acct b bid w"
  by (simp add: issued_def)

lemma singleton_distinct:
  assumes "distinct xs" "set xs = {a}"
  shows "xs = [a]"
proof (cases xs)
  case Nil
  with assms(2) show ?thesis by simp
next
  case (Cons x ys)
  with assms have "x = a" "set ys \<subseteq> {a}" "x \<notin> set ys" by auto
  then have "ys = []" by (cases ys) auto
  with Cons \<open>x = a\<close> show ?thesis by simp
qed

lemma serializer_block_write_run:
  assumes "serializer_block_write ser io b bid acct (init_world s) = Inr (t, w3)"
  shows "block_writes_impl ser
           [buf_write_info (convert_buffer_cache_buf_to_ser_buffer ser b)
              (get_block_size_ser_value ser) bid] acct s = ([t], ser_state w3) \<and>
         calls (trace w3) =
           [EvBlockWrites
              [buf_write_info (convert_buffer_cache_buf_to_ser_buffer ser b)
                 (get_block_size_ser_value ser) bid] acct 0 [t],
            EvWait 0] \<and>
         pulses_of (trace w3) = [0] \<and> is_pulsed w3 0 \<and> inflight w3 = [] \<and>
         length (heap w3) = 1"
proof -
  let ?W0 = "submitted ser acct b bid (block_write_cb False) (init_world s)"
  let ?W1 = "early_completions io ?W0"
  from assms have t: "issued ser acct b bid (init_world s) = [t]"
    and w: "wait io (length (heap (init_world s))) ?W1 = Inr w3"
    unfolding serializer_block_write_eq by (auto split: list.splits sum.splits)
  have c: "completes ?W0 ?W1" by (rule early_completes)
  have wf1: "wf_world ?W1"
    using c by (rule completes_wf) (simp add: wf_submitted wf_init_world)
  have len1: "length (heap ?W1) = 1" and st1: "ser_state ?W1 = ser_state ?W0"
    using completes_fields [OF c] by (simp_all add: submitted_fields init_world_def)
  obtain ios where ios: "trace ?W1 = trace ?W0 @ ios" "calls ios = []"
    using completes_trace [OF c] by blast
  have w0: "wait io 0 ?W1 = Inr w3" using w by (simp add: init_world_def)
  from wait_barrier [OF wf1, of 0 io] len1 w0 obtain ys
    where b: "wf_world w3" "trace w3 = trace ?W1 @ ys" "calls ys = [EvWait 0]"
      "length (heap w3) = length (heap ?W1)" "ser_state w3 = ser_state ?W1" "is_pulsed w3 0"
    by auto
  have l3: "length (heap w3) = 1" using b(4) len1 by simp
  have p0: "pulsed (heap w3 ! 0)" using b(6) by (simp add: is_pulsed_def)
  have allp: "\<And>c. c < length (heap w3) \<Longrightarrow> pulsed (heap w3 ! c)"
    using p0 by (simp add: l3)
  have "{c. c < length (heap w3) \<and> pulsed (heap w3 ! c)} = {0}"
    using allp by (auto simp: l3)
  then have "set (pulses_of (trace w3)) = {0}" "distinct (pulses_of (trace w3))"
    using b(1) by (simp_all add: wf_world_def)
  then have 1: "pulses_of (trace w3) = [0]" by (simp add: singleton_distinct)
  have "{c. c < length (heap w3) \<and> \<not> pulsed (heap w3 ! c)} = {}"
    using allp by blast
  then have "set (inflight w3) = {}" using b(1) by (simp add: wf_world_def)
  then have 2: "inflight w3 = []" by simp
  have 3: "calls (trace w3) =
           [EvBlockWrites
              [buf_write_info (convert_buffer_cache_buf_to_ser_buffer ser b)
                 (get_block_size_ser_value ser) bid] acct 0 [t],
            EvWait 0]"
    using b(2,3) ios t by (simp add: submitted_fields init_world_def)
  have 4: "block_writes_impl ser
           [buf_write_info (convert_buffer_cache_buf_to_ser_buffer ser b)
              (get_block_size_ser_value ser) bid] acct s = ([t], ser_state w3)"
    using t b(5) st1 by (simp add: submitted_fields issued_def init_world_def prod_eq_iff)
  show ?thesis using 1 2 3 4 b(6) l3 by blast
qed

subsection \<open>The entry of one descriptor\<close>

lemma op_for_delete:
  assumes "list_all2 op_for writes ops" "i < length writes" "action (writes ! i) = DELETE"
  shows "ops ! i =
     \<lparr>op_block_id = block_id (writes ! i), token = Some None, recency = Some invalid\<rparr>"
proof -
  have "op_for (writes ! i) (ops ! i)" using assms(1,2) by (rule list_all2_nthD)
  then show ?thesis using assms(3) by (cases "ops ! i") simp
qed

lemma op_for_touch:
  assumes "list_all2 op_for writes ops" "i < length writes" "action (writes ! i) = TOUCH rec"
  shows "ops ! i = \<lparr>op_block_id = block_id (writes ! i), token = None, recency = Some rec\<rparr>"
proof -
  have "op_for (writes ! i) (ops ! i)" using assms(1,2) by (rule list_all2_nthD)
  then show ?thesis using assms(3) by (cases "ops ! i") simp
qed

lemma do_writes_committed:
  assumes "do_writes ser io writes acct (init_world s) = Inr w'"
  shows "\<exists>ops. commits (trace w') = [(ops, acct)] \<and> list_all2 op_for writes ops"
proof -
  from do_writes_trace [OF assms] obtain ops xs ys
    where t: "trace w' = xs @ ys @ [EvIndexWrite ops acct]"
      and p: "list_all2 op_for writes ops"
        "calls xs = dispatch_calls ser acct 0 writes ops"
        "calls ys = concat (map (\<lambda>c. [EvWait c, EvDelete c]) [0..<length (heap w')])"
    by blast
  have "commits (trace w') = [(ops, acct)]"
    using t p(2,3) by (rule do_writes_commits)
  then show ?thesis using p(1) by blast
qed

subsection \<open>A batch in any well-formed world\<close>

lemma new_events_append: "trace w' = trace w @ zs \<Longrightarrow> new_events w w' = zs"
  by (simp add: new_events_def)

lemma sinks_calls: "sinks tr = sinks (calls tr)"
  unfolding sinks_def by (rule map_filter_calls) (erule is_io_event.elims; simp)

lemma sinks_append [simp]: "sinks (xs @ ys) = sinks xs @ sinks ys"
  by (simp add: sinks_def map_filter_append)

lemma sinks_barrier_calls [simp]:
  "sinks (concat (map (\<lambda>c. [EvWait c, EvDelete c]) cs)) = []"
  unfolding sinks_def by (rule map_filter_empty) auto

lemma sinks_commit [simp]: "sinks [EvIndexWrite ops acct] = []"
  by (simp add: sinks_def List.map_filter_simps)

lemma submits_commit [simp]: "submits [EvIndexWrite ops acct] = []"
  by (simp add: submits_def List.map_filter_simps)

lemma upt_shift: "[n..<n + Suc k] = n # [Suc n..<Suc n + k]"
proof -
  have "n < n + Suc k" by simp
  then have "[n..<n + Suc k] = n # [Suc n..<n + Suc k]" by (rule upt_conv_Cons)
  then show ?thesis by (simp only: add_Suc add_Suc_right)
qed

lemma sinks_dispatch_calls:
  "list_all2 op_for writes ops \<Longrightarrow>
   sinks (dispatch_calls ser acct n writes ops) = [n..<n + length (filter is_update writes)]"
proof (induction writes ops arbitrary: n rule: list_all2_induct)
  case Nil
  show ?case by (simp add: sinks_def List.map_filter_simps)
next
  case (Cons wr writes op ops)
  have "sinks (update_calls ser acct n wr op) = (if is_update wr then [n] else [])"
    using Cons.hyps(1)
    by (auto simp: sinks_def List.map_filter_simps split: action_t.splits option.splits)
  then have u: "sinks (update_calls ser acct n wr op) = (if is_update wr then [n] else [])" .
  show ?case
  proof (cases "is_update wr")
    case True
    have "[n..<n + Suc (length (filter is_update writes))] =
        n # [Suc n..<Suc n + length (filter is_update writes)]"
      by (rule upt_shift)
    then show ?thesis
      using u True Cons.IH [of "Suc n"] by (simp del: is_update.simps update_calls.simps)
  next
    case False
    then show ?thesis
      using u Cons.IH [of n] by (simp del: is_update.simps update_calls.simps)
  qed
qed

lemma perform_write_update_state:
  assumes "action wr = UPDATE b rec iocb lcb"
    and "perform_write ser io wr acct conds op w = Inr (conds', op', w')"
  shows "\<exists>t. block_writes_impl ser
             [buf_write_info (convert_buffer_cache_buf_to_ser_buffer ser b)
                (get_block_size_ser_value ser) (op_block_id op)] acct (ser_state w) =
             ([t], ser_state w') \<and>
           op' = op\<lparr>token := Some t, recency := Some rec\<rparr>"
proof -
  let ?W0 = "submitted ser acct b (op_block_id op) (write_cond_t iocb False) w"
  let ?W1 = "early_completions io ?W0"
  from assms(2) obtain t where t: "issued ser acct b (op_block_id op) w = [t]"
    and res: "op' = op\<lparr>token := Some t, recency := Some rec\<rparr>"
      "w' = (case lcb of Some cb \<Rightarrow> log_event (EvWriteLaunched cb t) ?W1 | None \<Rightarrow> ?W1)"
    unfolding perform_write_update [OF assms(1)]
    by (auto split: list.splits)
  have "ser_state w' = ser_state ?W1" using res(2) by (simp split: option.splits)
  also have "\<dots> = ser_state ?W0" using completes_fields [OF early_completes] by blast
  finally have "ser_state w' =
      snd (block_writes_impl ser
            [buf_write_info (convert_buffer_cache_buf_to_ser_buffer ser b)
               (get_block_size_ser_value ser) (op_block_id op)] acct (ser_state w))"
    by (simp add: submitted_fields)
  then have "block_writes_impl ser
             [buf_write_info (convert_buffer_cache_buf_to_ser_buffer ser b)
                (get_block_size_ser_value ser) (op_block_id op)] acct (ser_state w) =
             ([t], ser_state w')"
    using t by (simp add: issued_def prod_eq_iff)
  then show ?thesis using res(1) by blast
qed

lemma write_buffers_issued_ops:
  "write_buffers ser io writes acct conds ops w = Inr (conds', ops', w') \<Longrightarrow>
   \<exists>new. ops' = ops @ new \<and> issued_ops ser acct writes (ser_state w) = Some (new, ser_state w')"
proof (induction writes arbitrary: conds ops w)
  case Nil
  then show ?case by simp
next
  case (Cons wr writes)
  from Cons.prems obtain conds1 op1 w1
    where step: "perform_write ser io wr acct conds (index_write_op (block_id wr)) w =
        Inr (conds1, op1, w1)"
      and rest: "write_buffers ser io writes acct conds1 (ops @ [op1]) w1 = Inr (conds', ops', w')"
    by (auto split: sum.splits)
  from Cons.IH [OF rest] obtain new
    where ih: "ops' = (ops @ [op1]) @ new"
      "issued_ops ser acct writes (ser_state w1) = Some (new, ser_state w')"
    by blast
  have "issued_ops ser acct (wr # writes) (ser_state w) = Some (op1 # new, ser_state w')"
  proof (cases "action wr")
    case (UPDATE b rec iocb lcb)
    from perform_write_update_state [OF UPDATE step] obtain t
      where "block_writes_impl ser
             [buf_write_info (convert_buffer_cache_buf_to_ser_buffer ser b)
                (get_block_size_ser_value ser) (block_id wr)] acct (ser_state w) =
             ([t], ser_state w1)"
        "op1 = \<lparr>op_block_id = block_id wr, token = Some t, recency = Some rec\<rparr>"
      by (auto simp: index_write_op_def)
    then show ?thesis using UPDATE ih(2) by simp
  next
    case DELETE
    with step ih(2) show ?thesis by (auto simp: index_write_op_def)
  next
    case (TOUCH rec)
    with step ih(2) show ?thesis by (auto simp: index_write_op_def)
  qed
  then show ?case using ih(1) by simp
qed

lemma wf_index_write: "wf_world w \<Longrightarrow> wf_world (index_write ser ops acct w)"
proof -
  assume "wf_world w"
  then have "wf_world (w\<lparr>ser_state := index_write_impl ser ops acct (ser_state w)\<rparr>)"
    by (simp add: wf_world_def)
  then show ?thesis unfolding index_write_def by (rule wf_log_event) simp
qed

text \<open>The shape of a batch that starts in any well-formed world.\<close>

lemma do_writes_shape:
  assumes "wf_world w" "do_writes ser io writes acct w = Inr w'"
  shows "\<exists>ops xs ys w1 w2.
     write_buffers ser io writes acct [] [] w =
       Inr ([length (heap w)..<length (heap w')], ops, w1) \<and>
     wait_on_all io [length (heap w)..<length (heap w')] w1 = Inr w2 \<and>
     w' = index_write ser ops acct w2 \<and>
     trace w1 = trace w @ xs \<and> trace w2 = trace w1 @ ys \<and>
     new_events w w1 = xs \<and> new_events w1 w2 = ys \<and>
     new_events w2 w' = [EvIndexWrite ops acct] \<and>
     new_events w w' = xs @ ys @ [EvIndexWrite ops acct] \<and>
     trace w' = trace w @ new_events w w' \<and>
     list_all2 op_for writes ops \<and>
     issued_ops ser acct writes (ser_state w) = Some (ops, ser_state w1) \<and>
     ser_state w2 = ser_state w1 \<and>
     calls xs = dispatch_calls ser acct (length (heap w)) writes ops \<and>
     calls ys = concat (map (\<lambda>c. [EvWait c, EvDelete c]) [length (heap w)..<length (heap w')]) \<and>
     length (heap w') = length (heap w) + length (filter is_update writes) \<and>
     wf_world w' \<and>
     distinct (pulses_of (trace w @ xs @ ys)) \<and>
     set [length (heap w)..<length (heap w')] \<subseteq> set (pulses_of (xs @ ys)) \<and>
     list_all (is_pulsed w') [length (heap w)..<length (heap w')]"
proof -
  from do_writes_run [OF assms] obtain ops xs ys w1 w2
    where r: "write_buffers ser io writes acct [] [] w =
         Inr ([length (heap w)..<length (heap w')], ops, w1)"
      "wait_on_all io [length (heap w)..<length (heap w')] w1 = Inr w2"
      "w' = index_write ser ops acct w2" "list_all2 op_for writes ops"
      "trace w1 = trace w @ xs" "trace w2 = trace w1 @ ys"
      "calls xs = dispatch_calls ser acct (length (heap w)) writes ops"
      "calls ys = concat (map (\<lambda>c. [EvWait c, EvDelete c]) [length (heap w)..<length (heap w')])"
      "length (heap w') = length (heap w) + length (filter is_update writes)"
      "ser_state w2 = ser_state w1" "wf_world w2"
      "\<forall>c\<in>set [length (heap w)..<length (heap w')]. is_pulsed w2 c"
    by blast
  have h: "heap w' = heap w2" using r(3) by (simp add: index_write_def)
  have t': "trace w' = trace w @ xs @ ys @ [EvIndexWrite ops acct]"
    using r(3,5,6) by (simp add: index_write_def)
  have n1: "new_events w w1 = xs" using r(5) by (rule new_events_append)
  have n2: "new_events w1 w2 = ys" using r(6) by (rule new_events_append)
  have n3: "new_events w w' = xs @ ys @ [EvIndexWrite ops acct]"
    using t' by (rule new_events_append)
  have n4: "new_events w2 w' = [EvIndexWrite ops acct]"
    using r(3) by (simp add: new_events_def index_write_def)
  have i: "issued_ops ser acct writes (ser_state w) = Some (ops, ser_state w1)"
    using write_buffers_issued_ops [OF r(1)] by simp
  have wf': "wf_world w'" unfolding r(3) using r(11) by (rule wf_index_write)
  have t2: "trace w2 = trace w @ xs @ ys" using r(5,6) by simp
  have d: "distinct (pulses_of (trace w @ xs @ ys))"
    using r(11) unfolding t2 [symmetric] by (simp add: wf_world_def)
  have s2: "set (pulses_of (trace w2)) = {c. c < length (heap w2) \<and> pulsed (heap w2 ! c)}"
    using r(11) by (simp add: wf_world_def)
  have sub: "set [length (heap w)..<length (heap w')] \<subseteq> set (pulses_of (xs @ ys))"
  proof
    fix c assume c: "c \<in> set [length (heap w)..<length (heap w')]"
    then have "is_pulsed w2 c" using r(12) by blast
    then have "c \<in> set (pulses_of (trace w2))" unfolding s2 by (simp add: is_pulsed_def)
    moreover have "c \<notin> set (pulses_of (trace w))"
      using wf_pulses_bound [OF assms(1), of c] c by auto
    ultimately show "c \<in> set (pulses_of (xs @ ys))" unfolding t2 by simp
  qed
  have p: "list_all (is_pulsed w') [length (heap w)..<length (heap w')]"
    using r(12) h by (simp add: list_all_iff is_pulsed_def)
  show ?thesis
    using r(1,2,3,4,5,6,7,8,9,10) n1 n2 n3 n4 t' i wf' d sub p
    by (intro exI [of _ ops] exI [of _ xs] exI [of _ ys] exI [of _ w1] exI [of _ w2]) simp
qed

lemma shape_commits:
  assumes "zs = xs @ ys @ [EvIndexWrite ops acct]"
    and "calls xs = dispatch_calls ser acct n writes ops"
    and "calls ys = concat (map (\<lambda>c. [EvWait c, EvDelete c]) cs)"
  shows "commits zs = [(ops, acct)]"
proof -
  have "commits zs = commits (calls zs)" by (rule commits_calls)
  also have "\<dots> = [(ops, acct)]" using assms by simp
  finally show ?thesis .
qed


lemma shape_submits:
  assumes "zs = xs @ ys @ [EvIndexWrite ops acct]"
    and "calls xs = dispatch_calls ser acct n writes ops"
    and "calls ys = concat (map (\<lambda>c. [EvWait c, EvDelete c]) cs)"
    and "list_all2 op_for writes ops"
  shows "submits zs = List.map_filter (submit_for ser) (zip writes ops)"
proof -
  have "submits zs = submits (calls zs)" by (rule submits_calls)
  also have "\<dots> = submits (dispatch_calls ser acct n writes ops)" using assms(1,2,3) by simp
  finally show ?thesis using submits_dispatch_calls [OF assms(4)] by simp
qed

lemma shape_sinks:
  assumes "zs = xs @ ys @ [EvIndexWrite ops acct]"
    and "calls xs = dispatch_calls ser acct n writes ops"
    and "calls ys = concat (map (\<lambda>c. [EvWait c, EvDelete c]) cs)"
    and "list_all2 op_for writes ops"
  shows "sinks zs = [n..<n + length (filter is_update writes)]"
proof -
  have "sinks zs = sinks (calls zs)" by (rule sinks_calls)
  also have "\<dots> = sinks (dispatch_calls ser acct n writes ops)" using assms(1,2,3) by simp
  finally show ?thesis using sinks_dispatch_calls [OF assms(4)] by simp
qed

lemma wf_example_world: "wf_world example_world"
proof -
  have "wf_world (init_world (0::nat, []::index_write_op_t list))" by (rule wf_init_world)
  from do_writes_shape [OF this example_run] show ?thesis by blast
qed

lemma second_run:
  "do_writes counting_serializer io_second_first second_batch 0 example_world =
     Inr second_world"
  by code_simp

lemma second_new_events: "new_events example_world second_world = second_events"
  by (simp add: new_events_def second_world_def)

lemma perform_write_update_full:
  assumes "action wr = UPDATE b rec iocb lcb"
    and "perform_write ser io wr acct conds op w = Inr (conds', op', w')"
  shows "\<exists>t. block_writes_impl ser
             [buf_write_info (convert_buffer_cache_buf_to_ser_buffer ser b)
                (get_block_size_ser_value ser) (op_block_id op)] acct (ser_state w) =
             ([t], ser_state w') \<and>
           op' = \<lparr>op_block_id = op_block_id op, token = Some t, recency = Some rec\<rparr> \<and>
           conds' = conds @ [length (heap w)] \<and>
           trace w' = trace w @ new_events w w' \<and>
           calls (new_events w w') =
             EvBlockWrites
               [buf_write_info (convert_buffer_cache_buf_to_ser_buffer ser b)
                  (get_block_size_ser_value ser) (op_block_id op)] acct (length (heap w)) [t] #
             (case lcb of Some cb \<Rightarrow> [EvWriteLaunched cb t] | None \<Rightarrow> []) \<and>
           map wrapped_callback (heap w') = map wrapped_callback (heap w) @ [iocb]"
proof -
  let ?W0 = "submitted ser acct b (op_block_id op) (write_cond_t iocb False) w"
  let ?W1 = "early_completions io ?W0"
  let ?info = "[buf_write_info (convert_buffer_cache_buf_to_ser_buffer ser b)
                  (get_block_size_ser_value ser) (op_block_id op)]"
  from perform_write_update_state [OF assms] obtain t
    where s: "block_writes_impl ser ?info acct (ser_state w) = ([t], ser_state w')"
      and o: "op' = op\<lparr>token := Some t, recency := Some rec\<rparr>"
    by blast
  have i: "issued ser acct b (op_block_id op) w = [t]" using s by (simp add: issued_def)
  from assms(2) have c: "conds' = conds @ [length (heap w)]"
    and w': "w' = (case lcb of Some cb \<Rightarrow> log_event (EvWriteLaunched cb t) ?W1 | None \<Rightarrow> ?W1)"
    unfolding perform_write_update [OF assms(1)] i by simp_all
  obtain ios where ios: "trace ?W1 = trace ?W0 @ ios" "calls ios = []"
    using completes_trace [OF early_completes] by blast
  have t: "trace w' =
      trace w @ (EvBlockWrites ?info acct (length (heap w)) [t] # ios @
        (case lcb of Some cb \<Rightarrow> [EvWriteLaunched cb t] | None \<Rightarrow> []))"
    using w' ios(1) i by (simp add: submitted_fields split: option.splits)
  have n: "new_events w w' =
      EvBlockWrites ?info acct (length (heap w)) [t] # ios @
        (case lcb of Some cb \<Rightarrow> [EvWriteLaunched cb t] | None \<Rightarrow> [])"
    using t by (rule new_events_append)
  have 1: "trace w' = trace w @ new_events w w'" unfolding n by (rule t)
  have 2: "calls (new_events w w') =
      EvBlockWrites ?info acct (length (heap w)) [t] #
        (case lcb of Some cb \<Rightarrow> [EvWriteLaunched cb t] | None \<Rightarrow> [])"
    unfolding n using ios(2) by (simp split: option.splits)
  have "map wrapped_callback (heap w') =
      map wrapped_callback (heap w) @ map io_callback_of (filter is_update [wr])"
    using assms(2) by (rule perform_write_callbacks)
  then have 3: "map wrapped_callback (heap w') = map wrapped_callback (heap w) @ [iocb]"
    using assms(1) by simp
  have 4: "op' = \<lparr>op_block_id = op_block_id op, token = Some t, recency = Some rec\<rparr>"
    unfolding o by simp
  show ?thesis using s 4 c 1 2 3 by blast
qed

section \<open>The claims\<close>



text \<open>
  C2. A DELETE descriptor yields an Index Update with a null token and the invalid recency,
  whatever the world and the Index Update were before; the world (trace, handles, writes
  in flight, serializer) and the vector of handles are returned unchanged, so no physical
  write is submitted and no completion handle is created. In a batch, the entry appended
  for it is that of its block identifier, and it is the entry committed at the position
  of the descriptor.
\<close>

theorem delete_index_update:
  "perform_write ser io (make_delete bid) acct conds op w =
     Inr (conds, \<lparr>op_block_id = op_block_id op, token = Some None, recency = Some invalid\<rparr>, w)
   \<and> write_buffers ser io (make_delete bid # writes) acct conds ops w =
     write_buffers ser io writes acct conds
       (ops @ [\<lparr>op_block_id = bid, token = Some None, recency = Some invalid\<rparr>]) w
   \<and> (do_writes ser io batch acct (init_world s) = Inr w' \<and> i < length batch \<and>
       action (batch ! i) = DELETE \<longrightarrow>
        (\<exists>committed. commits (trace w') = [(committed, acct)] \<and>
           committed ! i =
             \<lparr>op_block_id = block_id (batch ! i), token = Some None,
               recency = Some invalid\<rparr>))"
proof (intro conjI impI)
  show "perform_write ser io (make_delete bid) acct conds op w =
     Inr (conds, \<lparr>op_block_id = op_block_id op, token = Some None, recency = Some invalid\<rparr>, w)"
    by (simp add: make_delete_def)
  show "write_buffers ser io (make_delete bid # writes) acct conds ops w =
     write_buffers ser io writes acct conds
       (ops @ [\<lparr>op_block_id = bid, token = Some None, recency = Some invalid\<rparr>]) w"
    by (simp add: make_delete_def index_write_op_def)
next
  assume a: "do_writes ser io batch acct (init_world s) = Inr w' \<and> i < length batch \<and>
       action (batch ! i) = DELETE"
  then have run: "do_writes ser io batch acct (init_world s) = Inr w'" by simp
  from do_writes_committed [OF run] obtain committed
    where c: "commits (trace w') = [(committed, acct)]" "list_all2 op_for batch committed"
    by blast
  have "committed ! i =
      \<lparr>op_block_id = block_id (batch ! i), token = Some None, recency = Some invalid\<rparr>"
    using c(2) a by (simp add: op_for_delete)
  with c(1) show "\<exists>committed. commits (trace w') = [(committed, acct)] \<and>
           committed ! i =
             \<lparr>op_block_id = block_id (batch ! i), token = Some None,
               recency = Some invalid\<rparr>"
    by blast
qed

theorem delete_index_update_witness:
  "do_writes counting_serializer io_second_first example_batch 0 (init_world (0, [])) =
     Inr example_world \<and>
   (1::nat) < length example_batch \<and> action (example_batch ! 1) = DELETE \<and>
   (\<exists>committed. commits (trace example_world) = [(committed, 0)] \<and>
      committed ! 1 =
        \<lparr>op_block_id = block_id (example_batch ! 1), token = Some None,
          recency = Some invalid\<rparr>) \<and>
   block_id (example_batch ! 1) = 2"
proof -
  have h: "(1::nat) < length example_batch" "action (example_batch ! 1) = DELETE"
    "block_id (example_batch ! 1) = 2"
    by code_simp+
  note th = delete_index_update [of counting_serializer io_second_first 0 0 "[]"
      "index_write_op 0" "init_world (0, [])" "[]" "[]" example_batch "(0, [])" example_world 1]
  have "\<exists>committed. commits (trace example_world) = [(committed, 0)] \<and>
      committed ! 1 =
        \<lparr>op_block_id = block_id (example_batch ! 1), token = Some None,
          recency = Some invalid\<rparr>"
    using th [THEN conjunct2, THEN conjunct2] example_run h(1,2) by blast
  then show ?thesis using example_run h by blast
qed

text \<open>
  C3. A TOUCH descriptor changes only the recency of its Index Update: the token field
  keeps the value it had, and the world and the vector of handles are returned unchanged,
  so there is no physical write and no completion handle. In a batch the token of its
  entry is never assigned: the entry committed at the position of the descriptor has the
  token unset.
\<close>

theorem touch_index_update:
  "perform_write ser io (make_touch bid rec) acct conds op w =
     Inr (conds, \<lparr>op_block_id = op_block_id op, token = token op, recency = Some rec\<rparr>, w)
   \<and> write_buffers ser io (make_touch bid rec # writes) acct conds ops w =
     write_buffers ser io writes acct conds
       (ops @ [\<lparr>op_block_id = bid, token = None, recency = Some rec\<rparr>]) w
   \<and> (do_writes ser io batch acct (init_world s) = Inr w' \<and> i < length batch \<and>
       action (batch ! i) = TOUCH rec' \<longrightarrow>
        (\<exists>committed. commits (trace w') = [(committed, acct)] \<and>
           committed ! i =
             \<lparr>op_block_id = block_id (batch ! i), token = None, recency = Some rec'\<rparr>))"
proof (intro conjI impI)
  show "perform_write ser io (make_touch bid rec) acct conds op w =
     Inr (conds, \<lparr>op_block_id = op_block_id op, token = token op, recency = Some rec\<rparr>, w)"
    by (simp add: make_touch_def)
  show "write_buffers ser io (make_touch bid rec # writes) acct conds ops w =
     write_buffers ser io writes acct conds
       (ops @ [\<lparr>op_block_id = bid, token = None, recency = Some rec\<rparr>]) w"
    by (simp add: make_touch_def index_write_op_def)
next
  assume a: "do_writes ser io batch acct (init_world s) = Inr w' \<and> i < length batch \<and>
       action (batch ! i) = TOUCH rec'"
  then have run: "do_writes ser io batch acct (init_world s) = Inr w'" by simp
  from do_writes_committed [OF run] obtain committed
    where c: "commits (trace w') = [(committed, acct)]" "list_all2 op_for batch committed"
    by blast
  have "committed ! i =
      \<lparr>op_block_id = block_id (batch ! i), token = None, recency = Some rec'\<rparr>"
    using c(2) a by (simp add: op_for_touch)
  with c(1) show "\<exists>committed. commits (trace w') = [(committed, acct)] \<and>
           committed ! i =
             \<lparr>op_block_id = block_id (batch ! i), token = None, recency = Some rec'\<rparr>"
    by blast
qed

theorem touch_index_update_witness:
  "do_writes counting_serializer io_second_first example_batch 0 (init_world (0, [])) =
     Inr example_world \<and>
   (2::nat) < length example_batch \<and> action (example_batch ! 2) = TOUCH (timestamp 9) \<and>
   (\<exists>committed. commits (trace example_world) = [(committed, 0)] \<and>
      committed ! 2 =
        \<lparr>op_block_id = block_id (example_batch ! 2), token = None,
          recency = Some (timestamp 9)\<rparr>) \<and>
   block_id (example_batch ! 2) = 3"
proof -
  have h: "(2::nat) < length example_batch" "action (example_batch ! 2) = TOUCH (timestamp 9)"
    "block_id (example_batch ! 2) = 3"
    by code_simp+
  note th = touch_index_update [of counting_serializer io_second_first 0 "timestamp 0" 0 "[]"
      "index_write_op 0" "init_world (0, [])" "[]" "[]" example_batch "(0, [])" example_world 2
      "timestamp 9"]
  have "\<exists>committed. commits (trace example_world) = [(committed, 0)] \<and>
      committed ! 2 =
        \<lparr>op_block_id = block_id (example_batch ! 2), token = None,
          recency = Some (timestamp 9)\<rparr>"
    using th [THEN conjunct2, THEN conjunct2] example_run h(1,2) by blast
  then show ?thesis using example_run h by blast
qed

text \<open>
  C4. When the serializer returns one token for each submitted write, \<open>perform_write\<close> on
  an UPDATE returns in every world (the \<open>guarantee\<close> holds): it makes one \<open>block_writes\<close>
  call, of one block, with a new handle that wraps the completion callback as its sink,
  and the one token that \<open>block_writes_impl\<close> returns for that call is the token of the
  Index Update; the serializer is left in the state \<open>block_writes_impl\<close> returns.
  \<open>do_writes\<close> returns on every batch in every well-formed world. The list it commits,
  as the last event, is the one the serializer determines (\<open>issued_ops\<close>): for each
  UPDATE the token of its own write, issued before the commit; and the serializer ends in
  the state \<open>index_write_impl\<close> gives for that list after those writes. The writes
  submitted are one for each UPDATE, in the order of the batch, each with a new handle as
  its sink.
\<close>

theorem update_issues_one_token:
  assumes "one_token_per_write ser"
  shows "(\<exists>t v'.
            block_writes_impl ser
              [buf_write_info (convert_buffer_cache_buf_to_ser_buffer ser b)
                 (get_block_size_ser_value ser) (op_block_id op)] acct (ser_state v) =
              ([t], ser_state v') \<and>
            perform_write ser io (make_update bid rec b iocb lcb) acct conds op v =
              Inr (conds @ [length (heap v)],
                   \<lparr>op_block_id = op_block_id op, token = Some t, recency = Some rec\<rparr>, v') \<and>
            trace v' = trace v @ new_events v v' \<and>
            calls (new_events v v') =
              EvBlockWrites
                [buf_write_info (convert_buffer_cache_buf_to_ser_buffer ser b)
                   (get_block_size_ser_value ser) (op_block_id op)] acct (length (heap v)) [t] #
              (case lcb of Some cb \<Rightarrow> [EvWriteLaunched cb t] | None \<Rightarrow> []) \<and>
            map wrapped_callback (heap v') = map wrapped_callback (heap v) @ [iocb]) \<and>
     (wf_world w \<longrightarrow>
        (\<exists>w' ops s1.
           do_writes ser io writes acct w = Inr w' \<and>
           issued_ops ser acct writes (ser_state w) = Some (ops, s1) \<and>
           ser_state w' = index_write_impl ser ops acct s1 \<and>
           trace w' = trace w @ new_events w w' \<and>
           last (trace w') = EvIndexWrite ops acct \<and>
           commits (new_events w w') = [(ops, acct)] \<and>
           list_all2 op_for writes ops \<and>
           submits (butlast (new_events w w')) =
             List.map_filter (submit_for ser) (zip writes ops) \<and>
           length (submits (butlast (new_events w w'))) = length (filter is_update writes) \<and>
           sinks (new_events w w') = [length (heap w)..<length (heap w')] \<and>
           length (heap w') = length (heap w) + length (filter is_update writes) \<and>
           map wrapped_callback (heap w') =
             map wrapped_callback (heap w) @ map io_callback_of (filter is_update writes)))"
proof (intro conjI impI)
  have a: "action (make_update bid rec b iocb lcb) = UPDATE b rec iocb lcb"
    by (simp add: make_update_def)
  obtain conds' op' v'
    where r: "perform_write ser io (make_update bid rec b iocb lcb) acct conds op v =
        Inr (conds', op', v')"
    using perform_write_total [OF assms] by (metis prod_cases3)
  from perform_write_update_full [OF a r] r
  show "\<exists>t v'.
            block_writes_impl ser
              [buf_write_info (convert_buffer_cache_buf_to_ser_buffer ser b)
                 (get_block_size_ser_value ser) (op_block_id op)] acct (ser_state v) =
              ([t], ser_state v') \<and>
            perform_write ser io (make_update bid rec b iocb lcb) acct conds op v =
              Inr (conds @ [length (heap v)],
                   \<lparr>op_block_id = op_block_id op, token = Some t, recency = Some rec\<rparr>, v') \<and>
            trace v' = trace v @ new_events v v' \<and>
            calls (new_events v v') =
              EvBlockWrites
                [buf_write_info (convert_buffer_cache_buf_to_ser_buffer ser b)
                   (get_block_size_ser_value ser) (op_block_id op)] acct (length (heap v)) [t] #
              (case lcb of Some cb \<Rightarrow> [EvWriteLaunched cb t] | None \<Rightarrow> []) \<and>
            map wrapped_callback (heap v') = map wrapped_callback (heap v) @ [iocb]"
    by auto
next
  assume wf: "wf_world w"
  obtain w' where run: "do_writes ser io writes acct w = Inr w'"
    using do_writes_total [OF assms wf] by blast
  from do_writes_shape [OF wf run] obtain ops xs ys w1 w2
    where n: "new_events w w' = xs @ ys @ [EvIndexWrite ops acct]"
      and t: "trace w' = trace w @ new_events w w'"
      and w': "w' = index_write ser ops acct w2"
      and ph: "write_buffers ser io writes acct [] [] w =
           Inr ([length (heap w)..<length (heap w')], ops, w1)"
        "wait_on_all io [length (heap w)..<length (heap w')] w1 = Inr w2"
      and p: "list_all2 op_for writes ops"
        "calls xs = dispatch_calls ser acct (length (heap w)) writes ops"
        "calls ys =
           concat (map (\<lambda>c. [EvWait c, EvDelete c]) [length (heap w)..<length (heap w')])"
        "issued_ops ser acct writes (ser_state w) = Some (ops, ser_state w1)"
        "ser_state w2 = ser_state w1"
        "length (heap w') = length (heap w) + length (filter is_update writes)"
    by blast
  have b: "butlast (new_events w w') = xs @ ys" unfolding n by (simp add: butlast_append)
  have 1: "submits (butlast (new_events w w')) = List.map_filter (submit_for ser) (zip writes ops)"
    unfolding b using p(1,2,3) by (rule do_writes_submits)
  have 2: "last (trace w') = EvIndexWrite ops acct" unfolding t n by simp
  have 3: "length (submits (butlast (new_events w w'))) = length (filter is_update writes)"
    unfolding 1 using p(1) by (rule length_submits_updates)
  have 4: "commits (new_events w w') = [(ops, acct)]" using n p(2,3) by (rule shape_commits)
  have "sinks (new_events w w') =
      [length (heap w)..<length (heap w) + length (filter is_update writes)]"
    using n p(2,3,1) by (rule shape_sinks)
  then have 5: "sinks (new_events w w') = [length (heap w)..<length (heap w')]"
    using p(6) by simp
  have 6: "ser_state w' = index_write_impl ser ops acct (ser_state w1)"
    unfolding w' using p(5) by (simp add: index_write_def)
  have 7: "map wrapped_callback (heap w') =
      map wrapped_callback (heap w) @ map io_callback_of (filter is_update writes)"
    using run by (rule do_writes_callbacks)
  show "\<exists>w' ops s1.
           do_writes ser io writes acct w = Inr w' \<and>
           issued_ops ser acct writes (ser_state w) = Some (ops, s1) \<and>
           ser_state w' = index_write_impl ser ops acct s1 \<and>
           trace w' = trace w @ new_events w w' \<and>
           last (trace w') = EvIndexWrite ops acct \<and>
           commits (new_events w w') = [(ops, acct)] \<and>
           list_all2 op_for writes ops \<and>
           submits (butlast (new_events w w')) =
             List.map_filter (submit_for ser) (zip writes ops) \<and>
           length (submits (butlast (new_events w w'))) = length (filter is_update writes) \<and>
           sinks (new_events w w') = [length (heap w)..<length (heap w')] \<and>
           length (heap w') = length (heap w) + length (filter is_update writes) \<and>
           map wrapped_callback (heap w') =
             map wrapped_callback (heap w) @ map io_callback_of (filter is_update writes)"
    using run p(4) 6 t 2 4 p(1) 1 3 5 p(6) 7 by blast
qed

theorem update_issues_one_token_witness:
  "one_token_per_write counting_serializer \<and>
   (\<exists>t v'.
      block_writes_impl counting_serializer
        [buf_write_info (convert_buffer_cache_buf_to_ser_buffer counting_serializer 300)
           (get_block_size_ser_value counting_serializer) (op_block_id (index_write_op 4))] 0
        (ser_state example_world) = ([t], ser_state v') \<and>
      perform_write counting_serializer io_second_first
        (make_update 4 (timestamp 12) 300 (Some 6) (Some 5)) 0 [] (index_write_op 4)
        example_world =
        Inr ([] @ [length (heap example_world)],
             \<lparr>op_block_id = op_block_id (index_write_op 4), token = Some t,
               recency = Some (timestamp 12)\<rparr>, v') \<and>
      trace v' = trace example_world @ new_events example_world v' \<and>
      calls (new_events example_world v') =
        EvBlockWrites
          [buf_write_info (convert_buffer_cache_buf_to_ser_buffer counting_serializer 300)
             (get_block_size_ser_value counting_serializer) (op_block_id (index_write_op 4))] 0
          (length (heap example_world)) [t] #
        (case Some 5 of Some cb \<Rightarrow> [EvWriteLaunched cb t] | None \<Rightarrow> []) \<and>
      map wrapped_callback (heap v') = map wrapped_callback (heap example_world) @ [Some 6]) \<and>
   wf_world example_world \<and>
   (\<exists>w' ops s1.
      do_writes counting_serializer io_second_first second_batch 0 example_world = Inr w' \<and>
      issued_ops counting_serializer 0 second_batch (ser_state example_world) = Some (ops, s1) \<and>
      ser_state w' = index_write_impl counting_serializer ops 0 s1 \<and>
      trace w' = trace example_world @ new_events example_world w' \<and>
      last (trace w') = EvIndexWrite ops 0 \<and>
      commits (new_events example_world w') = [(ops, 0)] \<and>
      list_all2 op_for second_batch ops \<and>
      submits (butlast (new_events example_world w')) =
        List.map_filter (submit_for counting_serializer) (zip second_batch ops) \<and>
      length (submits (butlast (new_events example_world w'))) =
        length (filter is_update second_batch) \<and>
      sinks (new_events example_world w') = [length (heap example_world)..<length (heap w')] \<and>
      length (heap w') = length (heap example_world) + length (filter is_update second_batch) \<and>
      map wrapped_callback (heap w') =
        map wrapped_callback (heap example_world) @
        map io_callback_of (filter is_update second_batch)) \<and>
   do_writes counting_serializer io_second_first second_batch 0 example_world =
     Inr second_world \<and>
   issued_ops counting_serializer 0 second_batch (ser_state example_world) =
     Some (second_ops, (3, example_ops)) \<and>
   submits (butlast (new_events example_world second_world)) =
     [([\<lparr>buf = 284, block_size = 4096, info_block_id = 4\<rparr>], [Some 2])]"
proof -
  have e: "issued_ops counting_serializer 0 second_batch (ser_state example_world) =
     Some (second_ops, (3, example_ops))"
    "submits (butlast (new_events example_world second_world)) =
     [([\<lparr>buf = 284, block_size = 4096, info_block_id = 4\<rparr>], [Some 2])]"
    by code_simp+
  note th = update_issues_one_token [OF one_token_counting_serializer,
      where b = 300 and op = "index_write_op 4" and acct = 0 and v = example_world
        and io = io_second_first and bid = 4 and rec = "timestamp 12" and iocb = "Some 6"
        and lcb = "Some 5" and conds = "[]" and w = example_world and writes = second_batch]
  show ?thesis
    using one_token_counting_serializer th [THEN conjunct1] wf_example_world
      th [THEN conjunct2, THEN mp, OF wf_example_world] second_run e
    by (intro conjI)
qed



text \<open>
  C6. \<open>on_io_complete\<close> of a \<open>write_cond_t\<close> appends to the trace the call of the wrapped
  callback when there is one, nothing for a null callback, and after it one pulse of the
  handle, whose latch is set from then on. In a batch, handle \<open>c\<close> wraps the completion
  callback of the \<open>c\<close>-th UPDATE; the completions in the trace are, handle after handle
  in the order they complete, that callback (if not null) followed by the pulse, and every
  handle is pulsed exactly once.
\<close>

theorem completion_callback_then_pulse:
  "trace (on_io_complete (write_cond_t cb p) c w) =
     trace w @ (case cb of Some f \<Rightarrow> [EvIoComplete f] | None \<Rightarrow> []) @ [EvPulse c] \<and>
   heap (on_io_complete (write_cond_t cb p) c w) = (heap w)[c := set_pulsed (heap w ! c)] \<and>
   (do_writes ser io writes acct (init_world s) = Inr w' \<longrightarrow>
      map wrapped_callback (heap w') = map io_callback_of (filter is_update writes) \<and>
      list_all pulsed (heap w') \<and>
      filter is_io_event (trace w') =
        concat (map (\<lambda>c. completion_of (map io_callback_of (filter is_update writes) ! c) c)
                  (pulses_of (trace w'))) \<and>
      distinct (pulses_of (trace w')) \<and>
      set (pulses_of (trace w')) = {0..<length (filter is_update writes)})"
proof (intro conjI impI)
  show "trace (on_io_complete (write_cond_t cb p) c w) =
     trace w @ (case cb of Some f \<Rightarrow> [EvIoComplete f] | None \<Rightarrow> []) @ [EvPulse c]"
    by (cases cb) simp_all
  show "heap (on_io_complete (write_cond_t cb p) c w) = (heap w)[c := set_pulsed (heap w ! c)]"
    by (rule on_io_complete_fields)
next
  assume run: "do_writes ser io writes acct (init_world s) = Inr w'"
  from do_writes_run [OF wf_init_world run] obtain ops ys w1 w2
    where r: "w' = index_write ser ops acct w2" "wf_world w2"
      "write_buffers ser io writes acct [] [] (init_world s) =
         Inr ([length (heap (init_world s))..<length (heap w')], ops, w1)"
      "\<forall>c\<in>set [length (heap (init_world s))..<length (heap w')]. is_pulsed w2 c"
      "length (heap w') = length (heap (init_world s)) + length (filter is_update writes)"
    by blast
  have h: "heap w' = heap w2" and t: "trace w' = trace w2 @ [EvIndexWrite ops acct]"
    using r(1) by (simp_all add: index_write_def)
  have cbs: "map wrapped_callback (heap w') = map io_callback_of (filter is_update writes)"
    using do_writes_callbacks [OF run] by (simp add: init_world_def)
  have len: "length (heap w') = length (filter is_update writes)"
    using r(5) by (simp add: init_world_def)
  have all: "\<And>c. c < length (heap w2) \<Longrightarrow> pulsed (heap w2 ! c)"
    using r(4) h by (simp add: init_world_def is_pulsed_def)
  have p: "pulses_of (trace w') = pulses_of (trace w2)" unfolding t by simp
  have f: "filter is_io_event (trace w') = filter is_io_event (trace w2)" unfolding t by simp
  have "set (pulses_of (trace w2)) = {c. c < length (heap w2) \<and> pulsed (heap w2 ! c)}"
    using r(2) by (simp add: wf_world_def)
  also have "\<dots> = {0..<length (heap w2)}" using all by auto
  finally have s: "set (pulses_of (trace w2)) = {0..<length (heap w2)}" .
  have "filter is_io_event (trace w2) =
      concat (map (\<lambda>c. completion_events (heap w2 ! c) c) (pulses_of (trace w2)))"
    using r(2) by (simp add: wf_world_def)
  also have "\<dots> = concat (map (\<lambda>c. completion_of (map wrapped_callback (heap w2) ! c) c)
      (pulses_of (trace w2)))"
    by (rule concat_completions) (simp add: s)
  finally have b: "filter is_io_event (trace w2) =
      concat (map (\<lambda>c. completion_of (map wrapped_callback (heap w2) ! c) c)
        (pulses_of (trace w2)))" .
  show "map wrapped_callback (heap w') = map io_callback_of (filter is_update writes)"
    by (rule cbs)
  show "list_all pulsed (heap w')"
    unfolding h using all by (simp add: list_all_length)
  show "filter is_io_event (trace w') =
        concat (map (\<lambda>c. completion_of (map io_callback_of (filter is_update writes) ! c) c)
                  (pulses_of (trace w')))"
    unfolding f p cbs [symmetric] h by (rule b)
  show "distinct (pulses_of (trace w'))"
    unfolding p using r(2) by (simp add: wf_world_def)
  show "set (pulses_of (trace w')) = {0..<length (filter is_update writes)}"
    unfolding p s using len h by simp
qed

theorem completion_callback_then_pulse_witness:
  "trace (on_io_complete (write_cond_t (Some 7) False) 0 (init_world (0::nat))) =
     trace (init_world (0::nat)) @
     (case Some 7 of Some f \<Rightarrow> [EvIoComplete f] | None \<Rightarrow> []) @ [EvPulse 0] \<and>
   do_writes counting_serializer io_second_first example_batch 0 (init_world (0, [])) =
     Inr example_world \<and>
   map wrapped_callback (heap example_world) =
     map io_callback_of (filter is_update example_batch) \<and>
   list_all pulsed (heap example_world) \<and>
   filter is_io_event (trace example_world) =
     concat (map (\<lambda>c. completion_of (map io_callback_of (filter is_update example_batch) ! c) c)
               (pulses_of (trace example_world))) \<and>
   distinct (pulses_of (trace example_world)) \<and>
   set (pulses_of (trace example_world)) = {0..<length (filter is_update example_batch)} \<and>
   filter is_io_event (trace example_world) = [EvPulse 1, EvIoComplete 7, EvPulse 0]"
proof -
  have "filter is_io_event (trace example_world) = [EvPulse 1, EvIoComplete 7, EvPulse 0]"
    by code_simp
  then show ?thesis
    using example_run
      completion_callback_then_pulse [of "Some 7" False 0 "init_world (0::nat)"
        counting_serializer io_second_first example_batch 0 "(0, [])" example_world]
    by blast
qed






text \<open>
  C9 does not hold as stated: the two paths do not end in the same state. In this run the
  index of the serializer is empty after \<open>serializer_block_write\<close> and holds the entry of
  block 1 after \<open>do_writes\<close> on the batch of the one UPDATE.
\<close>

theorem block_write_same_state_counterexample:
  "serializer_block_write counting_serializer io_second_first 100 1 0 (init_world (0, [])) =
     Inr (Some 0,
          \<lparr>ser_state = (1, []), heap = [block_write_cb True], inflight = [],
            trace = [EvBlockWrites [\<lparr>buf = 84, block_size = 4096, info_block_id = 1\<rparr>]
                       0 0 [Some 0],
                     EvWait 0, EvPulse 0]\<rparr>) \<and>
   do_writes counting_serializer io_second_first
     [make_update 1 (timestamp 5) 100 None None] 0 (init_world (0, [])) =
     Inr \<lparr>ser_state =
            (1, [\<lparr>op_block_id = 1, token = Some (Some 0), recency = Some (timestamp 5)\<rparr>]),
          heap = [write_cond_t None True], inflight = [],
          trace = [EvBlockWrites [\<lparr>buf = 84, block_size = 4096, info_block_id = 1\<rparr>]
                     0 0 [Some 0],
                   EvWait 0, EvPulse 0, EvDelete 0,
                   EvIndexWrite
                     [\<lparr>op_block_id = 1, token = Some (Some 0),
                        recency = Some (timestamp 5)\<rparr>] 0]\<rparr> \<and>
   map_sum id (ser_state \<circ> snd)
     (serializer_block_write counting_serializer io_second_first 100 1 0
        (init_world (0, []))) \<noteq>
   map_sum id ser_state
     (do_writes counting_serializer io_second_first
        [make_update 1 (timestamp 5) 100 None None] 0 (init_world (0, [])))"
proof -
  have 1: "serializer_block_write counting_serializer io_second_first 100 1 0
      (init_world (0, [])) =
     Inr (Some 0,
          \<lparr>ser_state = (1, []), heap = [block_write_cb True], inflight = [],
            trace = [EvBlockWrites [\<lparr>buf = 84, block_size = 4096, info_block_id = 1\<rparr>]
                       0 0 [Some 0],
                     EvWait 0, EvPulse 0]\<rparr>)"
    by code_simp
  have 2: "do_writes counting_serializer io_second_first
     [make_update 1 (timestamp 5) 100 None None] 0 (init_world (0, [])) =
     Inr \<lparr>ser_state =
            (1, [\<lparr>op_block_id = 1, token = Some (Some 0), recency = Some (timestamp 5)\<rparr>]),
          heap = [write_cond_t None True], inflight = [],
          trace = [EvBlockWrites [\<lparr>buf = 84, block_size = 4096, info_block_id = 1\<rparr>]
                     0 0 [Some 0],
                   EvWait 0, EvPulse 0, EvDelete 0,
                   EvIndexWrite
                     [\<lparr>op_block_id = 1, token = Some (Some 0),
                        recency = Some (timestamp 5)\<rparr>] 0]\<rparr>"
    by code_simp
  show ?thesis unfolding 1 2 by simp
qed

text \<open>
  C9, as the code has it. \<open>serializer_block_write\<close> submits one physical write of one
  block, waits until its handle is pulsed and returns the one token issued; it calls no
  \<open>index_write\<close>. \<open>do_writes\<close> on the batch of that one UPDATE (null callbacks) goes
  through the same submission and the same wait, with a \<open>write_cond_t\<close> as the handle, and
  then deletes the handle and commits one Index Update that carries the token.
\<close>

theorem block_write_dispatches_and_waits:
  "do_writes ser io [make_update bid rec b None None] acct (as_write_conds w) =
     (case serializer_block_write ser io b bid acct w of
        Inl e \<Rightarrow> Inl e
      | Inr (t, w3) \<Rightarrow>
          Inr (index_write ser [\<lparr>op_block_id = bid, token = Some t, recency = Some rec\<rparr>] acct
                 (log_event (EvDelete (length (heap w))) (as_write_conds w3)))) \<and>
   (serializer_block_write ser io b bid acct (init_world s) = Inr (t, w3) \<longrightarrow>
      block_writes_impl ser
        [buf_write_info (convert_buffer_cache_buf_to_ser_buffer ser b)
           (get_block_size_ser_value ser) bid] acct s = ([t], ser_state w3) \<and>
      calls (trace w3) =
        [EvBlockWrites
           [buf_write_info (convert_buffer_cache_buf_to_ser_buffer ser b)
              (get_block_size_ser_value ser) bid] acct 0 [t],
         EvWait 0] \<and>
      pulses_of (trace w3) = [0] \<and> is_pulsed w3 0 \<and> inflight w3 = [] \<and>
      length (heap w3) = 1)"
proof (intro conjI impI)
  define wr where "wr = make_update bid rec b None None"
  have a: "action wr = UPDATE b rec None None" and bd: "block_id wr = bid"
    by (simp_all add: wr_def make_update_def)
  have pw: "perform_write ser io wr acct [] (index_write_op bid) (as_write_conds w) =
      (case issued ser acct b bid w of
         [t] \<Rightarrow>
           Inr ([length (heap w)], \<lparr>op_block_id = bid, token = Some t, recency = Some rec\<rparr>,
                as_write_conds
                  (early_completions io (submitted ser acct b bid (block_write_cb False) w)))
       | _ \<Rightarrow> Inl GuaranteeFailed)"
    by (simp add: perform_write_update [OF a] index_write_op_def submitted_as_write_conds
        early_completions_as_write_conds split: list.splits)
  have "do_writes ser io [wr] acct (as_write_conds w) =
     (case serializer_block_write ser io b bid acct w of
        Inl e \<Rightarrow> Inl e
      | Inr (t, w3) \<Rightarrow>
          Inr (index_write ser [\<lparr>op_block_id = bid, token = Some t, recency = Some rec\<rparr>] acct
                 (log_event (EvDelete (length (heap w))) (as_write_conds w3))))"
  proof (cases "\<exists>t. issued ser acct b bid w = [t]")
    case False
    then have "perform_write ser io wr acct [] (index_write_op bid) (as_write_conds w) =
        Inl GuaranteeFailed"
      using pw by (auto split: list.splits)
    moreover have "serializer_block_write ser io b bid acct w = Inl GuaranteeFailed"
      using False by (auto simp: serializer_block_write_eq split: list.splits)
    ultimately show ?thesis by (simp add: do_writes_def bd)
  next
    case True
    then obtain t where i: "issued ser acct b bid w = [t]" by blast
    let ?W1 = "early_completions io (submitted ser acct b bid (block_write_cb False) w)"
    have p: "perform_write ser io wr acct [] (index_write_op bid) (as_write_conds w) =
        Inr ([length (heap w)], \<lparr>op_block_id = bid, token = Some t, recency = Some rec\<rparr>,
             as_write_conds ?W1)"
      using pw i by simp
    show ?thesis
    proof (cases "wait io (length (heap w)) ?W1")
      case (Inl e)
      then show ?thesis
        by (simp add: do_writes_def bd p serializer_block_write_eq i wait_as_write_conds)
    next
      case (Inr w3)
      then show ?thesis
        by (simp add: do_writes_def bd p serializer_block_write_eq i wait_as_write_conds
            log_event_as_write_conds)
    qed
  qed
  then show "do_writes ser io [make_update bid rec b None None] acct (as_write_conds w) =
     (case serializer_block_write ser io b bid acct w of
        Inl e \<Rightarrow> Inl e
      | Inr (t, w3) \<Rightarrow>
          Inr (index_write ser [\<lparr>op_block_id = bid, token = Some t, recency = Some rec\<rparr>] acct
                 (log_event (EvDelete (length (heap w))) (as_write_conds w3))))"
    by (simp only: wr_def)
next
  assume "serializer_block_write ser io b bid acct (init_world s) = Inr (t, w3)"
  from serializer_block_write_run [OF this]
  show "block_writes_impl ser
        [buf_write_info (convert_buffer_cache_buf_to_ser_buffer ser b)
           (get_block_size_ser_value ser) bid] acct s = ([t], ser_state w3)"
    and "calls (trace w3) =
        [EvBlockWrites
           [buf_write_info (convert_buffer_cache_buf_to_ser_buffer ser b)
              (get_block_size_ser_value ser) bid] acct 0 [t],
         EvWait 0]"
    and "pulses_of (trace w3) = [0]" and "is_pulsed w3 0" and "inflight w3 = []"
    and "length (heap w3) = 1"
    by blast+
qed

theorem block_write_dispatches_and_waits_witness:
  "do_writes counting_serializer io_second_first
     [make_update 1 (timestamp 5) 100 None None] 0 (as_write_conds (init_world (0, []))) =
     (case serializer_block_write counting_serializer io_second_first 100 1 0
             (init_world (0, [])) of
        Inl e \<Rightarrow> Inl e
      | Inr (t, w3) \<Rightarrow>
          Inr (index_write counting_serializer
                 [\<lparr>op_block_id = 1, token = Some t, recency = Some (timestamp 5)\<rparr>] 0
                 (log_event
                    (EvDelete (length (heap (init_world (0::nat, []::index_write_op_t list)))))
                    (as_write_conds w3)))) \<and>
   serializer_block_write counting_serializer io_second_first 100 1 0 (init_world (0, [])) =
     Inr (Some 0, block_write_world) \<and>
   block_writes_impl counting_serializer
     [buf_write_info (convert_buffer_cache_buf_to_ser_buffer counting_serializer 100)
        (get_block_size_ser_value counting_serializer) 1] 0 (0, []) =
     ([Some 0], ser_state block_write_world) \<and>
   calls (trace block_write_world) =
     [EvBlockWrites
        [buf_write_info (convert_buffer_cache_buf_to_ser_buffer counting_serializer 100)
           (get_block_size_ser_value counting_serializer) 1] 0 0 [Some 0],
      EvWait 0] \<and>
   pulses_of (trace block_write_world) = [0] \<and> is_pulsed block_write_world 0 \<and>
   inflight block_write_world = [] \<and> length (heap block_write_world) = 1"
proof -
  have run: "serializer_block_write counting_serializer io_second_first 100 1 0
      (init_world (0, [])) = Inr (Some 0, block_write_world)"
    by code_simp
  note th = block_write_dispatches_and_waits [of counting_serializer io_second_first 1
      "timestamp 5" 100 0 "init_world (0, [])" "(0, [])" "Some 0" block_write_world]
  show ?thesis
    by (rule conjI [OF th [THEN conjunct1] conjI [OF run th [THEN conjunct2, THEN mp, OF run]]])
qed

text \<open>
  C10. On the empty batch \<open>do_writes\<close> returns; the store of handles and the writes in
  flight are as before, and the only event is one \<open>index_write\<close> with the empty list.
\<close>

theorem empty_batch_commits:
  "do_writes ser io [] acct w =
     Inr (w\<lparr>ser_state := index_write_impl ser [] acct (ser_state w),
            trace := trace w @ [EvIndexWrite [] acct]\<rparr>)"
  by (simp add: do_writes_def index_write_def log_event_def)

end
